theory Spec2Isabelle
  imports Complex_Main
begin

section \<open>Data model (types.ts)\<close>

text \<open>
  A JavaScript \<^verbatim>\<open>number\<close> of the expense data is never computed with by the
  orchestrator; it is carried as a real.
\<close>

type_synonym number = real

record ExpenseItem =
  item :: string
  quantity :: number
  price :: number

record ExpenseData =
  merchant :: string
  date :: string
  total' :: number
  items :: "ExpenseItem list"

datatype saveStatus = pending | success | failed

text \<open>
  \<^verbatim>\<open>ProcessedReceipt\<close>. The payload type \<open>'d\<close> is that of the non-null values
  the \<^verbatim>\<open>data\<close> field can hold: \<^typ>\<open>ExpenseData\<close> by the declared types,
  whatever non-null value \<^verbatim>\<open>JSON.parse\<close> returned at run time. \<open>None\<close> is
  \<^verbatim>\<open>null\<close>.
\<close>

record 'd ProcessedReceipt =
  id' :: string
  imagePreview :: string
  status :: string
  data :: "'d option"
  saveStatus :: saveStatus
  error :: "string option"

text \<open>
  \<^verbatim>\<open>Partial<ProcessedReceipt>\<close>: every key may be absent (\<open>None\<close>) or carry a
  value of the field's type.
\<close>

record 'd Partial_ProcessedReceipt =
  id_upd :: "string option"
  imagePreview_upd :: "string option"
  status_upd :: "string option"
  data_upd :: "'d option option"
  saveStatus_upd :: "saveStatus option"
  error_upd :: "string option option"

definition no_update :: "'d Partial_ProcessedReceipt" where
  "no_update = \<lparr>id_upd = None, imagePreview_upd = None, status_upd = None,
     data_upd = None, saveStatus_upd = None, error_upd = None\<rparr>"

text \<open>The object spread \<^verbatim>\<open>{ ...r, ...update }\<close>.\<close>

definition spread :: "'d ProcessedReceipt \<Rightarrow> 'd Partial_ProcessedReceipt \<Rightarrow> 'd ProcessedReceipt" where
  "spread r u =
     \<lparr>id' = (case id_upd u of None \<Rightarrow> id' r | Some v \<Rightarrow> v),
      imagePreview = (case imagePreview_upd u of None \<Rightarrow> imagePreview r | Some v \<Rightarrow> v),
      status = (case status_upd u of None \<Rightarrow> status r | Some v \<Rightarrow> v),
      data = (case data_upd u of None \<Rightarrow> data r | Some v \<Rightarrow> v),
      saveStatus = (case saveStatus_upd u of None \<Rightarrow> saveStatus r | Some v \<Rightarrow> v),
      error = (case error_upd u of None \<Rightarrow> error r | Some v \<Rightarrow> v)\<rparr>"

text \<open>\<^verbatim>\<open>Array.prototype.findIndex\<close>; \<open>None\<close> is the result \<^verbatim>\<open>-1\<close>.\<close>

fun findIndex :: "('a \<Rightarrow> bool) \<Rightarrow> 'a list \<Rightarrow> nat option" where
  "findIndex P [] = None"
| "findIndex P (x # xs) =
     (if P x then Some 0 else (case findIndex P xs of None \<Rightarrow> None | Some i \<Rightarrow> Some (Suc i)))"

section \<open>Observable application state\<close>

record File =
  name :: string
  body :: string

datatype 'd event =
    Alert string
  | SetIsProcessing bool
  | SetProcessedReceipts "'d ProcessedReceipt list"
  | CallExtract File
  | CallStructure string
  | CallPersist "'d option" string string

text \<open>
  The React state the handler writes, and the chronological record of what it did:
  every state setter call (each \<open>SetProcessedReceipts\<close> is one snapshot handed to the
  observers), every alert and every collaborator call.
\<close>

record 'd app =
  isProcessing :: bool
  processedReceipts :: "'d ProcessedReceipt list"
  trace :: "'d event list"

definition alert :: "string \<Rightarrow> 'd app \<Rightarrow> 'd app" where
  "alert m a = a\<lparr>trace := trace a @ [Alert m]\<rparr>"

definition setIsProcessing :: "bool \<Rightarrow> 'd app \<Rightarrow> 'd app" where
  "setIsProcessing b a = a\<lparr>isProcessing := b, trace := trace a @ [SetIsProcessing b]\<rparr>"

definition setProcessedReceipts :: "'d ProcessedReceipt list \<Rightarrow> 'd app \<Rightarrow> 'd app" where
  "setProcessedReceipts rs a = a\<lparr>processedReceipts := rs, trace := trace a @ [SetProcessedReceipts rs]\<rparr>"

definition call :: "'d event \<Rightarrow> 'd app \<Rightarrow> 'd app" where
  "call e a = a\<lparr>trace := trace a @ [e]\<rparr>"

section \<open>The job state store: \<^verbatim>\<open>results\<close> and \<^verbatim>\<open>updateResult\<close>\<close>

text \<open>
  A running batch is the pair of its local array \<^verbatim>\<open>results\<close> and the application
  state. \<^verbatim>\<open>updateResult\<close> is the closure of one job; \<open>jid\<close> is the
  \<^verbatim>\<open>initialResult.id\<close> it captured.
\<close>

type_synonym 'd batch = "'d ProcessedReceipt list \<times> 'd app"

definition updateResult :: "string \<Rightarrow> 'd Partial_ProcessedReceipt \<Rightarrow> 'd batch \<Rightarrow> 'd batch" where
  "updateResult jid u s =
     (case s of (results, a) \<Rightarrow>
        (case findIndex (\<lambda>r. id' r = jid) results of
           None \<Rightarrow> (results, a)
         | Some index \<Rightarrow>
             (let results' = results[index := spread (results ! index) u]
              in (results', setProcessedReceipts results' a))))"


section \<open>The external world\<close>

text \<open>
  A value thrown by a collaborator: an object, of which the handler reads only the
  \<^verbatim>\<open>message\<close>, which may be missing. (The collaborators throw \<^verbatim>\<open>Error\<close>
  objects; a rejection with \<^verbatim>\<open>null\<close> or \<^verbatim>\<open>undefined\<close> is outside this type.)
\<close>

datatype thrown = Thrown (message: "string option")

text \<open>
  What the handler cannot decide itself: the clock, the object URLs, and what each
  awaited collaborator call settles to (\<open>Inl\<close> a rejection, \<open>Inr\<close> the resolved
  value). The first argument is the index of the loop iteration making the request, so
  that two requests with equal arguments may be answered differently. The structuring
  call may resolve to \<^verbatim>\<open>null\<close> (\<open>None\<close>): its declared result type excludes that,
  but the service returns what \<^verbatim>\<open>JSON.parse\<close> gave under a type assertion. The
  persistence call is then made with that \<^verbatim>\<open>null\<close>.
\<close>

record 'd env =
  Date_now :: "nat \<Rightarrow> nat"
  createObjectURL :: "nat \<Rightarrow> File \<Rightarrow> string"
  await_extractTextFromImage :: "nat \<Rightarrow> File \<Rightarrow> thrown + string"
  await_generateExpenseJson :: "nat \<Rightarrow> string \<Rightarrow> thrown + 'd option"
  await_saveToGoogleSheets :: "nat \<Rightarrow> 'd option \<Rightarrow> string \<Rightarrow> string \<Rightarrow> thrown + unit"

text \<open>
  Decimal rendering of a non-negative integer, as string concatenation does (a clock
  reading in milliseconds stays far below the size at which JavaScript switches to
  exponent notation).
\<close>

definition digit_char :: "nat \<Rightarrow> char" where
  "digit_char d = ''0123456789'' ! d"

fun show_nat :: "nat \<Rightarrow> string" where
  "show_nat n = (if n < 10 then [digit_char n] else show_nat (n div 10) @ [digit_char (n mod 10)])"

declare show_nat.simps [simp del]

section \<open>The orchestrator: \<^verbatim>\<open>handleProcessReceipts\<close>\<close>

definition initialResult :: "'d env \<Rightarrow> nat \<Rightarrow> File \<Rightarrow> 'd ProcessedReceipt" where
  "initialResult E k file =
     \<lparr>id' = name file @ show_nat (Date_now E k),
      imagePreview = createObjectURL E k file,
      status = ''Processing OCR...'',
      data = None,
      saveStatus = pending,
      error = None\<rparr>"

text \<open>
  The body of one loop iteration is cut at its three \<^verbatim>\<open>await\<close>s. \<open>job_start\<close> runs
  up to the first one: the record is pushed, a snapshot is published and the extraction
  call is issued.
\<close>

definition job_start :: "'d env \<Rightarrow> nat \<Rightarrow> File \<Rightarrow> 'd batch \<Rightarrow> 'd batch" where
  "job_start E k file s =
     (case s of (results, a) \<Rightarrow>
        (let results' = results @ [initialResult E k file]
         in (results', call (CallExtract file) (setProcessedReceipts results' a))))"

text \<open>\<^verbatim>\<open>e.message || 'An unknown error occurred.'\<close>: a missing or empty message is falsy.\<close>

definition caught_message :: "thrown \<Rightarrow> string" where
  "caught_message e =
     (case message e of
        None \<Rightarrow> ''An unknown error occurred.''
      | Some m \<Rightarrow> if m = [] then ''An unknown error occurred.'' else m)"

text \<open>The \<^verbatim>\<open>catch\<close> block.\<close>

definition on_catch :: "string \<Rightarrow> thrown \<Rightarrow> 'd batch \<Rightarrow> 'd batch" where
  "on_catch jid e s =
     updateResult jid
       (no_update\<lparr>status_upd := Some ''Failed'',
                   error_upd := Some (Some (caught_message e)),
                   saveStatus_upd := Some failed\<rparr>) s"

text \<open>
  After the extraction call has settled, up to the next \<^verbatim>\<open>await\<close>. The first
  component of the result is the text handed to the structuring call when the job goes
  on, \<open>None\<close> when the job has ended in the \<^verbatim>\<open>catch\<close> block.
\<close>

definition after_extract :: "string \<Rightarrow> thrown + string \<Rightarrow> 'd batch \<Rightarrow> string option \<times> 'd batch" where
  "after_extract jid r s =
     (case r of
        Inl e \<Rightarrow> (None, on_catch jid e s)
      | Inr ocrText \<Rightarrow>
          if ocrText = []
          then (None, on_catch jid
                  (Thrown (Some ''Could not extract any text. The image might be unclear.'')) s)
          else (case updateResult jid (no_update\<lparr>status_upd := Some ''Structuring data...''\<rparr>) s of
                  (results, a) \<Rightarrow> (Some ocrText, (results, call (CallStructure ocrText) a))))"

text \<open>
  After the structuring call has settled, up to the persistence call. The first
  component of the result is \<open>Some\<close> of the resolved value (itself \<open>None\<close> when it
  is \<^verbatim>\<open>null\<close>) when the job goes on, \<open>None\<close> when it has ended.
\<close>

definition after_structure ::
  "string \<Rightarrow> string \<Rightarrow> string \<Rightarrow> thrown + 'd option \<Rightarrow> 'd batch \<Rightarrow> 'd option option \<times> 'd batch" where
  "after_structure jid googleAccessToken spreadsheetId r s =
     (case r of
        Inl e \<Rightarrow> (None, on_catch jid e s)
      | Inr expenseData \<Rightarrow>
          (case updateResult jid (no_update\<lparr>status_upd := Some ''Saving to Google Sheets...''\<rparr>)
                  (updateResult jid
                     (no_update\<lparr>status_upd := Some ''Data extracted'',
                                 data_upd := Some expenseData\<rparr>) s) of
             (results, a) \<Rightarrow>
               (Some expenseData,
                (results, call (CallPersist expenseData googleAccessToken spreadsheetId) a))))"

text \<open>After the persistence call has settled.\<close>

definition after_persist :: "string \<Rightarrow> thrown + unit \<Rightarrow> 'd batch \<Rightarrow> 'd batch" where
  "after_persist jid r s =
     (case r of
        Inl e \<Rightarrow> on_catch jid e s
      | Inr _ \<Rightarrow>
          updateResult jid
            (no_update\<lparr>status_upd := Some ''Saved successfully!'',
                        saveStatus_upd := Some success\<rparr>) s)"

text \<open>One iteration of the \<^verbatim>\<open>for\<close> loop, each awaited call answered by the world.\<close>

definition process_file ::
  "'d env \<Rightarrow> string \<Rightarrow> string \<Rightarrow> nat \<Rightarrow> File \<Rightarrow> 'd batch \<Rightarrow> 'd batch" where
  "process_file E googleAccessToken spreadsheetId k file s =
     (let jid = id' (initialResult E k file)
      in case after_extract jid (await_extractTextFromImage E k file) (job_start E k file s) of
           (None, s') \<Rightarrow> s'
         | (Some ocrText, s') \<Rightarrow>
             (case after_structure jid googleAccessToken spreadsheetId
                     (await_generateExpenseJson E k ocrText) s' of
                (None, s'') \<Rightarrow> s''
              | (Some expenseData, s'') \<Rightarrow>
                  after_persist jid
                    (await_saveToGoogleSheets E k expenseData googleAccessToken spreadsheetId) s''))"

fun process_files ::
  "'d env \<Rightarrow> string \<Rightarrow> string \<Rightarrow> nat \<Rightarrow> File list \<Rightarrow> 'd batch \<Rightarrow> 'd batch" where
  "process_files E googleAccessToken spreadsheetId k [] s = s"
| "process_files E googleAccessToken spreadsheetId k (file # files) s =
     process_files E googleAccessToken spreadsheetId (Suc k) files
       (process_file E googleAccessToken spreadsheetId k file s)"

text \<open>
  From the guard to the first loop iteration: the processing flag is raised and the
  observable collection is replaced by a fresh empty one; \<^verbatim>\<open>results\<close> starts empty.
\<close>

definition batch_start :: "'d app \<Rightarrow> 'd batch" where
  "batch_start a = ([], setProcessedReceipts [] (setIsProcessing True a))"

definition handleProcessReceipts ::
  "'d env \<Rightarrow> File list \<Rightarrow> string \<Rightarrow> string \<Rightarrow> 'd app \<Rightarrow> 'd app" where
  "handleProcessReceipts E imageFiles googleAccessToken spreadsheetId a =
     (if imageFiles = [] \<or> googleAccessToken = [] \<or> spreadsheetId = []
      then alert ''Please upload images and connect to Google Sheets.'' a
      else setIsProcessing False
             (snd (process_files E googleAccessToken spreadsheetId 0 imageFiles (batch_start a))))"

section \<open>The trigger: the button and the handler between its \<^verbatim>\<open>await\<close>s\<close>

text \<open>
  \<^verbatim>\<open>handleProcessReceipts\<close> is an \<^verbatim>\<open>async\<close> function: it returns to the event loop
  at every \<^verbatim>\<open>await\<close> and goes on when the awaited call has settled. In between, the
  page can receive a click. An invocation suspended at an \<^verbatim>\<open>await\<close> is a \<open>run\<close>: what
  its closure holds (the world that answers its calls, the \<^verbatim>\<open>imageFiles\<close>,
  \<^verbatim>\<open>googleAccessToken\<close> and \<^verbatim>\<open>spreadsheetId\<close> of the render in which it was created),
  the position of the \<^verbatim>\<open>for\<close> loop, its local array \<^verbatim>\<open>results\<close>, and the call it
  waits for.
\<close>

datatype 'd awaiting = AwaitExtract | AwaitStructure string | AwaitPersist "'d option"

record 'd run =
  run_env :: "'d env"
  run_files :: "File list"
  run_token :: string
  run_sheet :: string
  run_index :: nat
  run_results :: "'d ProcessedReceipt list"
  run_awaiting :: "'d awaiting"

text \<open>
  The head of the \<^verbatim>\<open>for\<close> loop at position \<open>run_index\<close>: with a file left, the
  iteration runs up to its first \<^verbatim>\<open>await\<close>; with none left, the loop is over and
  \<^verbatim>\<open>setIsProcessing(false)\<close> ends the invocation. The application state is the one
  current when the run goes on; the array is the run's own.
\<close>

definition begin_job :: "'d run \<Rightarrow> 'd app \<Rightarrow> 'd run option \<times> 'd app" where
  "begin_job r a =
     (if run_index r < length (run_files r)
      then (case job_start (run_env r) (run_index r) (run_files r ! run_index r) (run_results r, a) of
              (results, a') \<Rightarrow> (Some (r\<lparr>run_results := results, run_awaiting := AwaitExtract\<rparr>), a'))
      else (None, setIsProcessing False a))"

definition next_job :: "'d run \<Rightarrow> 'd batch \<Rightarrow> 'd run option \<times> 'd app" where
  "next_job r s =
     (case s of (results, a) \<Rightarrow>
        begin_job (r\<lparr>run_index := Suc (run_index r), run_results := results\<rparr>) a)"

text \<open>
  The handler from its entry to its first \<^verbatim>\<open>await\<close> (or to its end, at the guard).
\<close>

definition enter ::
  "'d env \<Rightarrow> File list \<Rightarrow> string \<Rightarrow> string \<Rightarrow> 'd app \<Rightarrow> 'd run option \<times> 'd app" where
  "enter E imageFiles googleAccessToken spreadsheetId a =
     (if imageFiles = [] \<or> googleAccessToken = [] \<or> spreadsheetId = []
      then (None, alert ''Please upload images and connect to Google Sheets.'' a)
      else (case batch_start a of
              (results, a') \<Rightarrow>
                begin_job \<lparr>run_env = E, run_files = imageFiles, run_token = googleAccessToken,
                           run_sheet = spreadsheetId, run_index = 0, run_results = results,
                           run_awaiting = AwaitExtract\<rparr> a'))"

text \<open>
  A suspended run goes on when its awaited call has settled, to its next \<^verbatim>\<open>await\<close>
  or to its end. \<^verbatim>\<open>updateResult\<close> works on the run's own array and publishes it into
  the application state that is current then.
\<close>

definition resume :: "'d run \<Rightarrow> 'd app \<Rightarrow> 'd run option \<times> 'd app" where
  "resume r a =
     (let E = run_env r; k = run_index r; file = run_files r ! k;
          jid = id' (initialResult E k file)
      in case run_awaiting r of
           AwaitExtract \<Rightarrow>
             (case after_extract jid (await_extractTextFromImage E k file) (run_results r, a) of
                (None, s') \<Rightarrow> next_job r s'
              | (Some ocrText, (results, a')) \<Rightarrow>
                  (Some (r\<lparr>run_results := results, run_awaiting := AwaitStructure ocrText\<rparr>), a'))
         | AwaitStructure ocrText \<Rightarrow>
             (case after_structure jid (run_token r) (run_sheet r)
                     (await_generateExpenseJson E k ocrText) (run_results r, a) of
                (None, s') \<Rightarrow> next_job r s'
              | (Some expenseData, (results, a')) \<Rightarrow>
                  (Some (r\<lparr>run_results := results, run_awaiting := AwaitPersist expenseData\<rparr>), a'))
         | AwaitPersist expenseData \<Rightarrow>
             next_job r
               (after_persist jid
                  (await_saveToGoogleSheets E k expenseData (run_token r) (run_sheet r))
                  (run_results r, a)))"

text \<open>
  The \<^verbatim>\<open>disabled\<close> attribute of the button whose \<^verbatim>\<open>onClick\<close> is the handler:
  \<^verbatim>\<open>isProcessing || imageFiles.length === 0 || !googleAccessToken || !spreadsheetId\<close>.
\<close>

definition button_disabled :: "'d app \<Rightarrow> File list \<Rightarrow> string \<Rightarrow> string \<Rightarrow> bool" where
  "button_disabled a imageFiles googleAccessToken spreadsheetId \<longleftrightarrow>
     isProcessing a \<or> imageFiles = [] \<or> googleAccessToken = [] \<or> spreadsheetId = []"

text \<open>
  The page: the application state and the suspended invocations of the handler, oldest
  first. Two things happen to it. A click on the button, at a moment when the component
  holds the given files, token and spreadsheet id, with the world that will answer the
  calls of the invocation: a disabled button dispatches no click; otherwise the handler
  runs to its first \<^verbatim>\<open>await\<close> and is suspended there. And the awaited call of the
  \<open>i\<close>-th suspended invocation settles, and that invocation goes on.
\<close>

record 'd page =
  page_app :: "'d app"
  page_runs :: "'d run list"

datatype 'd happening = Click "'d env" "File list" string string | Settled nat

fun happen :: "'d page \<Rightarrow> 'd happening \<Rightarrow> 'd page" where
  "happen p (Click E imageFiles googleAccessToken spreadsheetId) =
     (if button_disabled (page_app p) imageFiles googleAccessToken spreadsheetId then p
      else (case enter E imageFiles googleAccessToken spreadsheetId (page_app p) of
              (None, a') \<Rightarrow> p\<lparr>page_app := a'\<rparr>
            | (Some r, a') \<Rightarrow> p\<lparr>page_app := a', page_runs := page_runs p @ [r]\<rparr>))"
| "happen p (Settled i) =
     (if i < length (page_runs p)
      then (case resume (page_runs p ! i) (page_app p) of
              (None, a') \<Rightarrow>
                p\<lparr>page_app := a', page_runs := take i (page_runs p) @ drop (Suc i) (page_runs p)\<rparr>
            | (Some r, a') \<Rightarrow> p\<lparr>page_app := a', page_runs := (page_runs p)[i := r]\<rparr>)
      else p)"

definition happenings :: "'d page \<Rightarrow> 'd happening list \<Rightarrow> 'd page" where
  "happenings p hs = foldl happen p hs"

section \<open>The structuring service: \<^verbatim>\<open>generateExpenseJson\<close>\<close>

text \<open>
  A JavaScript string is a sequence of UTF-16 code units; \<open>ascii\<close> turns a literal of
  this theory into one.
\<close>

type_synonym utf16 = "nat list"

definition ascii :: "string \<Rightarrow> utf16" where
  "ascii s = map of_char s"

text \<open>
  What \<^verbatim>\<open>JSON.parse\<close> returns. A number is kept as its lexeme, which determines the
  double it denotes; an object keeps its members in source order.
\<close>

datatype json =
    JNull
  | JBool bool
  | JNumber utf16
  | JString utf16
  | JArray "json list"
  | JObject "(utf16 \<times> json) list"

subsection \<open>\<^verbatim>\<open>String.prototype.trim\<close>\<close>

definition is_js_space :: "nat \<Rightarrow> bool" where
  "is_js_space u \<longleftrightarrow>
     u \<in> {9, 10, 11, 12, 13, 32, 160, 5760, 8232, 8233, 8239, 8287, 12288, 65279}
     \<or> (8192 \<le> u \<and> u \<le> 8202)"

definition trim :: "utf16 \<Rightarrow> utf16" where
  "trim s = rev (dropWhile is_js_space (rev (dropWhile is_js_space s)))"

subsection \<open>\<^verbatim>\<open>JSON.parse\<close>: tokens\<close>

datatype token =
    TLBrace | TRBrace | TLBracket | TRBracket | TColon | TComma
  | TString utf16 | TNumber utf16 | TTrue | TFalse | TNull

text \<open>The number grammar \<^verbatim>\<open>-? (0 | [1-9][0-9]*) (. [0-9]+)? ([eE] [+-]? [0-9]+)?\<close> as an automaton.\<close>

datatype num_state = NStart | NMinus | NZero | NInt | NDot | NFrac | NExp | NExpSign | NExpDigits

definition is_digit :: "nat \<Rightarrow> bool" where
  "is_digit c \<longleftrightarrow> 48 \<le> c \<and> c \<le> 57"

fun num_step :: "num_state \<Rightarrow> nat \<Rightarrow> num_state option" where
  "num_step NStart c =
     (if c = 45 then Some NMinus else if c = 48 then Some NZero
      else if is_digit c then Some NInt else None)"
| "num_step NMinus c =
     (if c = 48 then Some NZero else if is_digit c then Some NInt else None)"
| "num_step NZero c =
     (if c = 46 then Some NDot else if c = 101 \<or> c = 69 then Some NExp else None)"
| "num_step NInt c =
     (if is_digit c then Some NInt else if c = 46 then Some NDot
      else if c = 101 \<or> c = 69 then Some NExp else None)"
| "num_step NDot c = (if is_digit c then Some NFrac else None)"
| "num_step NFrac c =
     (if is_digit c then Some NFrac else if c = 101 \<or> c = 69 then Some NExp else None)"
| "num_step NExp c =
     (if c = 43 \<or> c = 45 then Some NExpSign else if is_digit c then Some NExpDigits else None)"
| "num_step NExpSign c = (if is_digit c then Some NExpDigits else None)"
| "num_step NExpDigits c = (if is_digit c then Some NExpDigits else None)"

fun num_run :: "num_state \<Rightarrow> utf16 \<Rightarrow> num_state option" where
  "num_run st [] = Some st"
| "num_run st (c # cs) = (case num_step st c of None \<Rightarrow> None | Some st' \<Rightarrow> num_run st' cs)"

definition valid_number :: "utf16 \<Rightarrow> bool" where
  "valid_number lexeme \<longleftrightarrow>
     (case num_run NStart lexeme of
        None \<Rightarrow> False
      | Some st \<Rightarrow> st = NZero \<or> st = NInt \<or> st = NFrac \<or> st = NExpDigits)"

definition is_number_char :: "nat \<Rightarrow> bool" where
  "is_number_char c \<longleftrightarrow> is_digit c \<or> c = 45 \<or> c = 43 \<or> c = 46 \<or> c = 101 \<or> c = 69"

definition is_lower :: "nat \<Rightarrow> bool" where
  "is_lower c \<longleftrightarrow> 97 \<le> c \<and> c \<le> 122"

definition hex_value :: "nat \<Rightarrow> nat option" where
  "hex_value c =
     (if 48 \<le> c \<and> c \<le> 57 then Some (c - 48)
      else if 97 \<le> c \<and> c \<le> 102 then Some (c - 87)
      else if 65 \<le> c \<and> c \<le> 70 then Some (c - 55)
      else None)"

text \<open>The single-character escapes \<^verbatim>\<open>\" \\ \/ \b \f \n \r \t\<close>.\<close>

definition unescape :: "nat \<Rightarrow> nat option" where
  "unescape c =
     (if c = 34 then Some 34 else if c = 92 then Some 92 else if c = 47 then Some 47
      else if c = 98 then Some 8 else if c = 102 then Some 12 else if c = 110 then Some 10
      else if c = 114 then Some 13 else if c = 116 then Some 9 else None)"

datatype lexing =
    Idle
  | InString utf16
  | InEscape utf16
  | InUnicode utf16 "nat list"
  | InNumber utf16
  | InWord utf16

definition lex_idle :: "nat \<Rightarrow> (token list \<times> lexing) option" where
  "lex_idle c =
     (if c = 32 \<or> c = 9 \<or> c = 10 \<or> c = 13 then Some ([], Idle)
      else if c = 123 then Some ([TLBrace], Idle)
      else if c = 125 then Some ([TRBrace], Idle)
      else if c = 91 then Some ([TLBracket], Idle)
      else if c = 93 then Some ([TRBracket], Idle)
      else if c = 58 then Some ([TColon], Idle)
      else if c = 44 then Some ([TComma], Idle)
      else if c = 34 then Some ([], InString [])
      else if c = 45 \<or> is_digit c then Some ([], InNumber [c])
      else if is_lower c then Some ([], InWord [c])
      else None)"

definition finish_number :: "utf16 \<Rightarrow> token option" where
  "finish_number lexeme = (if valid_number lexeme then Some (TNumber lexeme) else None)"

definition finish_word :: "utf16 \<Rightarrow> token option" where
  "finish_word w =
     (if w = ascii ''true'' then Some TTrue
      else if w = ascii ''false'' then Some TFalse
      else if w = ascii ''null'' then Some TNull
      else None)"

definition after_token :: "token option \<Rightarrow> nat \<Rightarrow> (token list \<times> lexing) option" where
  "after_token t c =
     (case t of
        None \<Rightarrow> None
      | Some tok \<Rightarrow>
          (case lex_idle c of None \<Rightarrow> None | Some (ts, st) \<Rightarrow> Some (tok # ts, st)))"

fun lex_step :: "lexing \<Rightarrow> nat \<Rightarrow> (token list \<times> lexing) option" where
  "lex_step Idle c = lex_idle c"
| "lex_step (InString s) c =
     (if c = 34 then Some ([TString s], Idle)
      else if c = 92 then Some ([], InEscape s)
      else if c < 32 then None
      else Some ([], InString (s @ [c])))"
| "lex_step (InEscape s) c =
     (if c = 117 then Some ([], InUnicode s [])
      else (case unescape c of None \<Rightarrow> None | Some u \<Rightarrow> Some ([], InString (s @ [u]))))"
| "lex_step (InUnicode s hs) c =
     (case hex_value c of
        None \<Rightarrow> None
      | Some h \<Rightarrow>
          if length hs = 3
          then Some ([], InString (s @ [foldl (\<lambda>v d. 16 * v + d) 0 (hs @ [h])]))
          else Some ([], InUnicode s (hs @ [h])))"
| "lex_step (InNumber lexeme) c =
     (if is_number_char c then Some ([], InNumber (lexeme @ [c]))
      else after_token (finish_number lexeme) c)"
| "lex_step (InWord w) c =
     (if is_lower c then Some ([], InWord (w @ [c]))
      else after_token (finish_word w) c)"

fun lex_end :: "lexing \<Rightarrow> token list option" where
  "lex_end Idle = Some []"
| "lex_end (InNumber lexeme) = map_option (\<lambda>t. [t]) (finish_number lexeme)"
| "lex_end (InWord w) = map_option (\<lambda>t. [t]) (finish_word w)"
| "lex_end _ = None"

fun lex_from :: "lexing \<Rightarrow> utf16 \<Rightarrow> token list option" where
  "lex_from st [] = lex_end st"
| "lex_from st (c # cs) =
     (case lex_step st c of
        None \<Rightarrow> None
      | Some (ts, st') \<Rightarrow> map_option ((@) ts) (lex_from st' cs))"

subsection \<open>\<^verbatim>\<open>JSON.parse\<close>: values\<close>

text \<open>
  The open containers, innermost first: the elements read so far of an array; the
  members read so far of an object and the key waiting for its value.
\<close>

datatype frame =
    InArray "json list"
  | InObject "(utf16 \<times> json) list" "utf16 option"

datatype expecting =
    ExpValue
  | ExpValueOrEnd
  | ExpKeyOrEnd
  | ExpKey
  | ExpColon
  | ExpCommaOrEnd
  | Done json

type_synonym parsing = "expecting \<times> frame list"

fun complete :: "json \<Rightarrow> frame list \<Rightarrow> parsing option" where
  "complete v [] = Some (Done v, [])"
| "complete v (InArray elems # stack) = Some (ExpCommaOrEnd, InArray (elems @ [v]) # stack)"
| "complete v (InObject members (Some k) # stack) =
     Some (ExpCommaOrEnd, InObject (members @ [(k, v)]) None # stack)"
| "complete v (InObject members None # stack) = None"

definition begin_value :: "token \<Rightarrow> frame list \<Rightarrow> parsing option" where
  "begin_value t stack =
     (case t of
        TString s \<Rightarrow> complete (JString s) stack
      | TNumber n \<Rightarrow> complete (JNumber n) stack
      | TTrue \<Rightarrow> complete (JBool True) stack
      | TFalse \<Rightarrow> complete (JBool False) stack
      | TNull \<Rightarrow> complete JNull stack
      | TLBracket \<Rightarrow> Some (ExpValueOrEnd, InArray [] # stack)
      | TLBrace \<Rightarrow> Some (ExpKeyOrEnd, InObject [] None # stack)
      | _ \<Rightarrow> None)"

definition end_array :: "frame list \<Rightarrow> parsing option" where
  "end_array stack =
     (case stack of InArray elems # rest \<Rightarrow> complete (JArray elems) rest | _ \<Rightarrow> None)"

definition end_object :: "frame list \<Rightarrow> parsing option" where
  "end_object stack =
     (case stack of InObject members None # rest \<Rightarrow> complete (JObject members) rest | _ \<Rightarrow> None)"

definition read_key :: "token \<Rightarrow> frame list \<Rightarrow> parsing option" where
  "read_key t stack =
     (case (t, stack) of
        (TString k, InObject members None # rest) \<Rightarrow> Some (ExpColon, InObject members (Some k) # rest)
      | _ \<Rightarrow> None)"

fun parse_step :: "parsing \<Rightarrow> token \<Rightarrow> parsing option" where
  "parse_step (ExpValue, stack) t = begin_value t stack"
| "parse_step (ExpValueOrEnd, stack) t =
     (if t = TRBracket then end_array stack else begin_value t stack)"
| "parse_step (ExpKeyOrEnd, stack) t =
     (if t = TRBrace then end_object stack else read_key t stack)"
| "parse_step (ExpKey, stack) t = read_key t stack"
| "parse_step (ExpColon, stack) t = (if t = TColon then Some (ExpValue, stack) else None)"
| "parse_step (ExpCommaOrEnd, stack) t =
     (if t = TRBracket then end_array stack
      else if t = TRBrace then end_object stack
      else if t = TComma then
        (case stack of
           InArray elems # rest \<Rightarrow> Some (ExpValue, stack)
         | InObject members None # rest \<Rightarrow> Some (ExpKey, stack)
         | _ \<Rightarrow> None)
      else None)"
| "parse_step (Done v, stack) t = None"

fun parse_tokens :: "parsing \<Rightarrow> token list \<Rightarrow> json option" where
  "parse_tokens (e, stack) [] = (case e of Done v \<Rightarrow> Some v | _ \<Rightarrow> None)"
| "parse_tokens p (t # ts) =
     (case parse_step p t of None \<Rightarrow> None | Some p' \<Rightarrow> parse_tokens p' ts)"

text \<open>\<open>None\<close> is the \<^verbatim>\<open>SyntaxError\<close> thrown by \<^verbatim>\<open>JSON.parse\<close>.\<close>

definition JSON_parse :: "utf16 \<Rightarrow> json option" where
  "JSON_parse s =
     (case lex_from Idle s of
        None \<Rightarrow> None
      | Some tokens \<Rightarrow> parse_tokens (ExpValue, []) tokens)"

subsection \<open>The service function\<close>

text \<open>
  The response of the upstream model; its \<^verbatim>\<open>text\<close> may be undefined (\<open>None\<close>).
\<close>

record GenerateContentResponse =
  response_text :: "utf16 option"

definition prompt :: "string \<Rightarrow> string" where
  "prompt ocr =
     [CHR 0x0A] @
     ''    Based on the following text extracted from a receipt, identify the merchant name, date, total amount, and list of items purchased.'' @ [CHR 0x0A] @
     ''    Each item should have a description, quantity, and price.'' @ [CHR 0x0A] @
     ''    If a value is not present, use a sensible default (e.g., quantity 1, empty string for merchant).'' @ [CHR 0x0A] @
     ''    Ensure the total is a number, removing any currency symbols.'' @ [CHR 0x0A] @
     ''    '' @ [CHR 0x0A] @
     ''    Receipt Text:'' @ [CHR 0x0A] @
     ''    ---'' @ [CHR 0x0A] @
     ''    '' @ ocr @ [CHR 0x0A] @
     ''    ---'' @ [CHR 0x0A] @
     ''  ''"

definition structuring_failure :: thrown where
  "structuring_failure =
     Thrown (Some ''AI failed to generate a valid data structure. The receipt might be ambiguous.'')"

text \<open>
  \<open>generateContent\<close> is what the awaited upstream call settles to for a prompt. The
  call is awaited outside the \<^verbatim>\<open>try\<close> block, so its rejection is passed on as it is;
  inside the block, reading \<^verbatim>\<open>.trim()\<close> of an undefined text and a syntax error of
  \<^verbatim>\<open>JSON.parse\<close> both end in the \<^verbatim>\<open>catch\<close>. The parsed value is returned under a
  type assertion, which checks nothing.
\<close>

definition generateExpenseJson ::
  "(string \<Rightarrow> thrown + GenerateContentResponse) \<Rightarrow> string \<Rightarrow> thrown + json" where
  "generateExpenseJson generateContent ocr =
     (case generateContent (prompt ocr) of
        Inl e \<Rightarrow> Inl e
      | Inr response \<Rightarrow>
          (case response_text response of
             None \<Rightarrow> Inl structuring_failure
           | Some t \<Rightarrow>
               (case JSON_parse (trim t) of
                  None \<Rightarrow> Inl structuring_failure
                | Some v \<Rightarrow> Inr v)))"

text \<open>
  The returned value as the orchestrator holds it: JavaScript \<^verbatim>\<open>null\<close> is the
  absent data of a record, every other value is data.
\<close>

definition as_data :: "json \<Rightarrow> json option" where
  "as_data v = (case v of JNull \<Rightarrow> None | _ \<Rightarrow> Some v)"

definition resolved_data :: "thrown + json \<Rightarrow> thrown + json option" where
  "resolved_data r = (case r of Inl e \<Rightarrow> Inl e | Inr v \<Rightarrow> Inr (as_data v))"

subsection \<open>The shape the specification expects\<close>

text \<open>The value of a key of an object; of several members with one key the last counts.\<close>

definition member :: "string \<Rightarrow> (utf16 \<times> json) list \<Rightarrow> json option" where
  "member k members = map_of (rev members) (ascii k)"

definition is_string :: "json option \<Rightarrow> bool" where
  "is_string v = (case v of Some (JString _) \<Rightarrow> True | _ \<Rightarrow> False)"

definition is_number :: "json option \<Rightarrow> bool" where
  "is_number v = (case v of Some (JNumber _) \<Rightarrow> True | _ \<Rightarrow> False)"

text \<open>
  Written after the specification, not after the code:
  \<^verbatim>\<open>{merchant: string, date: string, total: number, items: sequence of {item: string, quantity: number, price: number}}\<close>.
\<close>

definition spec_item_shape :: "json \<Rightarrow> bool" where
  "spec_item_shape v =
     (case v of
        JObject members \<Rightarrow>
          is_string (member ''item'' members) \<and> is_number (member ''quantity'' members) \<and>
          is_number (member ''price'' members)
      | _ \<Rightarrow> False)"

definition spec_expense_shape :: "json \<Rightarrow> bool" where
  "spec_expense_shape v =
     (case v of
        JObject members \<Rightarrow>
          is_string (member ''merchant'' members) \<and> is_string (member ''date'' members) \<and>
          is_number (member ''total'' members) \<and>
          (case member ''items'' members of
             Some (JArray elems) \<Rightarrow> list_all spec_item_shape elems
           | _ \<Rightarrow> False)
      | _ \<Rightarrow> False)"

section \<open>Notions used to state the properties\<close>

text \<open>
  The record a job's closure works on: the one \<^verbatim>\<open>findIndex\<close> resolves for the
  job's id, as \<open>updateResult\<close> reads it (\<^verbatim>\<open>results[index]\<close>).
\<close>

definition job_record :: "string \<Rightarrow> 'd ProcessedReceipt list \<Rightarrow> 'd ProcessedReceipt option" where
  "job_record jid results =
     (case findIndex (\<lambda>r. id' r = jid) results of
        None \<Rightarrow> None
      | Some index \<Rightarrow> Some (results ! index))"

text \<open>The array \<open>updateResult\<close> leaves behind; it does not depend on the application state.\<close>

definition results_after ::
  "string \<Rightarrow> 'd Partial_ProcessedReceipt \<Rightarrow> 'd ProcessedReceipt list \<Rightarrow> 'd ProcessedReceipt list" where
  "results_after jid u results =
     (case findIndex (\<lambda>r. id' r = jid) results of
        None \<Rightarrow> results
      | Some index \<Rightarrow> results[index := spread (results ! index) u])"

text \<open>The snapshots published in a stretch of the trace, and the files whose extraction was requested.\<close>

fun snapshots :: "'d event list \<Rightarrow> 'd ProcessedReceipt list list" where
  "snapshots [] = []"
| "snapshots (SetProcessedReceipts rs # es) = rs # snapshots es"
| "snapshots (_ # es) = snapshots es"

fun extract_calls :: "'d event list \<Rightarrow> File list" where
  "extract_calls [] = []"
| "extract_calls (CallExtract file # es) = file # extract_calls es"
| "extract_calls (_ # es) = extract_calls es"

fun structure_calls :: "'d event list \<Rightarrow> string list" where
  "structure_calls [] = []"
| "structure_calls (CallStructure t # es) = t # structure_calls es"
| "structure_calls (_ # es) = structure_calls es"

text \<open>
  A job has reached a terminal state in a collection when the record resolved for its id
  has left \<open>pending\<close>.
\<close>

definition settled :: "'d ProcessedReceipt list \<Rightarrow> string \<Rightarrow> bool" where
  "settled results jid =
     (case job_record jid results of None \<Rightarrow> False | Some r \<Rightarrow> saveStatus r \<noteq> pending)"

text \<open>Every job but the one created last has reached a terminal state.\<close>

definition one_job_in_flight :: "'d ProcessedReceipt list \<Rightarrow> bool" where
  "one_job_in_flight results = list_all (settled results) (butlast (map id' results))"

text \<open>
  What one loop iteration does after \<open>job_start\<close>, listed in order: the partial
  updates it hands to \<open>updateResult\<close> and the collaborator calls it issues, as decided
  by what the awaited calls settle to.
\<close>

datatype 'd step = Upd "'d Partial_ProcessedReceipt" | Ev "'d event"

fun run_steps :: "string \<Rightarrow> 'd step list \<Rightarrow> 'd batch \<Rightarrow> 'd batch" where
  "run_steps jid [] s = s"
| "run_steps jid (Upd u # steps) s = run_steps jid steps (updateResult jid u s)"
| "run_steps jid (Ev e # steps) s = run_steps jid steps (fst s, call e (snd s))"

definition upd_failed :: "thrown \<Rightarrow> 'd Partial_ProcessedReceipt" where
  "upd_failed e = no_update\<lparr>status_upd := Some ''Failed'',
                             error_upd := Some (Some (caught_message e)),
                             saveStatus_upd := Some failed\<rparr>"

definition steps_after_persist :: "thrown + unit \<Rightarrow> 'd step list" where
  "steps_after_persist r =
     (case r of
        Inl e \<Rightarrow> [Upd (upd_failed e)]
      | Inr _ \<Rightarrow> [Upd (no_update\<lparr>status_upd := Some ''Saved successfully!'',
                                   saveStatus_upd := Some success\<rparr>)])"

definition steps_after_structure ::
  "'d env \<Rightarrow> string \<Rightarrow> string \<Rightarrow> nat \<Rightarrow> thrown + 'd option \<Rightarrow> 'd step list" where
  "steps_after_structure E googleAccessToken spreadsheetId k r =
     (case r of
        Inl e \<Rightarrow> [Upd (upd_failed e)]
      | Inr expenseData \<Rightarrow>
          [Upd (no_update\<lparr>status_upd := Some ''Data extracted'',
                           data_upd := Some expenseData\<rparr>),
           Upd (no_update\<lparr>status_upd := Some ''Saving to Google Sheets...''\<rparr>),
           Ev (CallPersist expenseData googleAccessToken spreadsheetId)]
          @ steps_after_persist
              (await_saveToGoogleSheets E k expenseData googleAccessToken spreadsheetId))"

definition job_steps :: "'d env \<Rightarrow> string \<Rightarrow> string \<Rightarrow> nat \<Rightarrow> File \<Rightarrow> 'd step list" where
  "job_steps E googleAccessToken spreadsheetId k file =
     (case await_extractTextFromImage E k file of
        Inl e \<Rightarrow> [Upd (upd_failed e)]
      | Inr ocrText \<Rightarrow>
          if ocrText = []
          then [Upd (upd_failed
                  (Thrown (Some ''Could not extract any text. The image might be unclear.'')))]
          else [Upd (no_update\<lparr>status_upd := Some ''Structuring data...''\<rparr>),
                Ev (CallStructure ocrText)]
               @ steps_after_structure E googleAccessToken spreadsheetId k
                   (await_generateExpenseJson E k ocrText))"

text \<open>The events a run of the handler adds to the trace.\<close>

definition batch_events :: "'d env \<Rightarrow> File list \<Rightarrow> string \<Rightarrow> string \<Rightarrow> 'd app \<Rightarrow> 'd event list" where
  "batch_events E imageFiles googleAccessToken spreadsheetId a =
     drop (length (trace a)) (trace (handleProcessReceipts E imageFiles googleAccessToken spreadsheetId a))"

text \<open>The record resolved for a job's id holds the given value in its data field.\<close>

definition has_data :: "string \<Rightarrow> 'd option \<Rightarrow> 'd ProcessedReceipt list \<Rightarrow> bool" where
  "has_data jid d results =
     (case job_record jid results of None \<Rightarrow> False | Some r \<Rightarrow> data r = d)"

text \<open>The persistence calls among a list of events.\<close>

fun persist_calls :: "'d event list \<Rightarrow> ('d option \<times> string \<times> string) list" where
  "persist_calls [] = []"
| "persist_calls (CallPersist d tok sid # es) = (d, tok, sid) # persist_calls es"
| "persist_calls (_ # es) = persist_calls es"

text \<open>The events one loop iteration adds to the trace.\<close>

definition job_events ::
  "'d env \<Rightarrow> string \<Rightarrow> string \<Rightarrow> nat \<Rightarrow> File \<Rightarrow> 'd batch \<Rightarrow> 'd event list" where
  "job_events E googleAccessToken spreadsheetId k file s =
     drop (length (trace (snd s))) (trace (snd (process_file E googleAccessToken spreadsheetId k file s)))"

text \<open>The record invariants of the data model.\<close>

definition record_ok :: "'d ProcessedReceipt \<Rightarrow> bool" where
  "record_ok r \<longleftrightarrow>
     (saveStatus r = success \<longrightarrow> data r \<noteq> None \<and> error r = None) \<and>
     (saveStatus r = failed \<longrightarrow> error r \<noteq> None)"

text \<open>
  Written after the specification: the place of a status label in the phase sequence
  Created/Extracting, Structuring, Saving, Succeeded/Failed (the label
  \<^verbatim>\<open>Data extracted\<close> belongs to the transition into Saving).
\<close>

definition phase_rank :: "string \<Rightarrow> nat" where
  "phase_rank s =
     (if s = ''Processing OCR...'' then 1
      else if s = ''Structuring data...'' then 2
      else if s = ''Data extracted'' \<or> s = ''Saving to Google Sheets...'' then 3
      else if s = ''Saved successfully!'' \<or> s = ''Failed'' then 4
      else 0)"

text \<open>
  A later snapshot advances an earlier one: it keeps every record of the earlier one in
  place, with the same id and a status no earlier in the phase sequence.
\<close>

definition advances :: "'d ProcessedReceipt list \<Rightarrow> 'd ProcessedReceipt list \<Rightarrow> bool" where
  "advances earlier later \<longleftrightarrow>
     length earlier \<le> length later \<and>
     (\<forall>i<length earlier.
        id' (later ! i) = id' (earlier ! i) \<and>
        phase_rank (status (earlier ! i)) \<le> phase_rank (status (later ! i)))"

text \<open>The successive states of a record under the updates of a list of steps.\<close>

fun own_states :: "'d ProcessedReceipt \<Rightarrow> 'd step list \<Rightarrow> 'd ProcessedReceipt list" where
  "own_states r [] = []"
| "own_states r (Upd u # steps) = spread r u # own_states (spread r u) steps"
| "own_states r (Ev e # steps) = own_states r steps"

text \<open>
  Notions for the page. One state of a batch frames another: the processing flag, the
  ids and the image previews of the array are the same, and the observable collection
  is the array once more if it was before.
\<close>

definition same_frame :: "'d batch \<Rightarrow> 'd batch \<Rightarrow> bool" where
  "same_frame s s' \<longleftrightarrow>
     isProcessing (snd s') = isProcessing (snd s) \<and>
     map id' (fst s') = map id' (fst s) \<and>
     map imagePreview (fst s') = map imagePreview (fst s) \<and>
     (processedReceipts (snd s) = fst s \<longrightarrow> processedReceipts (snd s') = fst s')"

text \<open>
  The first \<open>n\<close> records of an array are those a run has created for the first
  \<open>n\<close> of its files, as far as id and image preview tell.
\<close>

definition created_by :: "'d run \<Rightarrow> nat \<Rightarrow> 'd ProcessedReceipt list \<Rightarrow> bool" where
  "created_by r n results \<longleftrightarrow>
     map id' results = map (\<lambda>k. id' (initialResult (run_env r) k (run_files r ! k))) [0..<n] \<and>
     map imagePreview results =
       map (\<lambda>k. imagePreview (initialResult (run_env r) k (run_files r ! k))) [0..<n]"

text \<open>
  A suspended run agrees with the application state: the flag is raised, the observable
  collection is the run's array, the loop is at one of the run's files, and the array
  holds one record for each file up to that one.
\<close>

definition run_ok :: "'d app \<Rightarrow> 'd run \<Rightarrow> bool" where
  "run_ok a r \<longleftrightarrow>
     isProcessing a \<and> processedReceipts a = run_results r \<and>
     run_index r < length (run_files r) \<and>
     created_by r (Suc (run_index r)) (run_results r)"

definition page_ok :: "'d page \<Rightarrow> bool" where
  "page_ok p \<longleftrightarrow>
     (case page_runs p of
        [] \<Rightarrow> \<not> isProcessing (page_app p)
      | r # rs \<Rightarrow> rs = [] \<and> run_ok (page_app p) r)"

text \<open>The suspended invocation, if any, as a list.\<close>

definition suspended :: "'a option \<Rightarrow> 'a list" where
  "suspended x = (case x of None \<Rightarrow> [] | Some r \<Rightarrow> [r])"

section \<open>Concrete inputs\<close>

text \<open>Small stores, batches and worlds at which the theorems below are instantiated.\<close>

definition app0 :: "ExpenseData app" where
  "app0 = \<lparr>isProcessing = False, processedReceipts = [], trace = []\<rparr>"

definition receipt_a :: "ExpenseData ProcessedReceipt" where
  "receipt_a = \<lparr>id' = ''a.jpg1730534400000'', imagePreview = ''blob:1'', status = ''Processing OCR...'',
     data = None, saveStatus = pending, error = None\<rparr>"

definition receipt_b :: "ExpenseData ProcessedReceipt" where
  "receipt_b = \<lparr>id' = ''b.jpg1730534400007'', imagePreview = ''blob:2'', status = ''Processing OCR...'',
     data = None, saveStatus = pending, error = None\<rparr>"

definition fileA :: File where
  "fileA = \<lparr>name = ''A.jpg'', body = ''jpeg bytes of receipt A''\<rparr>"

definition fileB :: File where
  "fileB = \<lparr>name = ''B.jpg'', body = ''jpeg bytes of receipt B''\<rparr>"

definition expenseA :: ExpenseData where
  "expenseA = \<lparr>merchant = ''Cafe Luna'', date = ''2026-01-05'', total' = 12.5,
     items = [\<lparr>item = ''Latte'', quantity = 2, price = 6.25\<rparr>]\<rparr>"

text \<open>
  A world in which receipt A goes through every stage and the extraction call for
  receipt B is rejected; the clock advances between the two jobs.
\<close>

definition world_AB :: "ExpenseData env" where
  "world_AB =
     \<lparr>Date_now = (\<lambda>k. 1730534400000 + 900 * k),
      createObjectURL = (\<lambda>k file. ''blob:'' @ name file),
      await_extractTextFromImage = (\<lambda>k file.
         if name file = ''A.jpg'' then Inr ''CAFE LUNA 2x LATTE 12.50''
         else Inl (Thrown (Some ''Could not extract any text.''))),
      await_generateExpenseJson = (\<lambda>k t. Inr (Some expenseA)),
      await_saveToGoogleSheets = (\<lambda>k d tok sid. Inr ())\<rparr>"

text \<open>A world in which extraction and structuring succeed and the spreadsheet write is refused.\<close>

definition world_persist_fails :: "ExpenseData env" where
  "world_persist_fails =
     \<lparr>Date_now = (\<lambda>k. 1730534400000 + 900 * k),
      createObjectURL = (\<lambda>k file. ''blob:'' @ name file),
      await_extractTextFromImage = (\<lambda>k file. Inr ''CAFE LUNA 2x LATTE 12.50''),
      await_generateExpenseJson = (\<lambda>k t. Inr (Some expenseA)),
      await_saveToGoogleSheets = (\<lambda>k d tok sid.
         Inl (Thrown (Some ''The caller does not have permission'')))\<rparr>"

text \<open>
  Worlds in which the extraction call resolves to the empty string, and to a string of
  one space.
\<close>

definition world_empty_text :: "ExpenseData env" where
  "world_empty_text =
     \<lparr>Date_now = (\<lambda>k. 1730534400000 + 900 * k),
      createObjectURL = (\<lambda>k file. ''blob:'' @ name file),
      await_extractTextFromImage = (\<lambda>k file. Inr ''''),
      await_generateExpenseJson = (\<lambda>k t. Inr (Some expenseA)),
      await_saveToGoogleSheets = (\<lambda>k d tok sid. Inr ())\<rparr>"

definition world_blank_text :: "ExpenseData env" where
  "world_blank_text =
     \<lparr>Date_now = (\<lambda>k. 1730534400000 + 900 * k),
      createObjectURL = (\<lambda>k file. ''blob:'' @ name file),
      await_extractTextFromImage = (\<lambda>k file. Inr '' ''),
      await_generateExpenseJson = (\<lambda>k t. Inr (Some expenseA)),
      await_saveToGoogleSheets = (\<lambda>k d tok sid. Inr ())\<rparr>"

text \<open>
  Two different files of one name, and a world whose clock reads the same value at both
  loop iterations: the first extraction call is rejected at once (no network), every later
  call succeeds.
\<close>

definition fileA2 :: File where
  "fileA2 = \<lparr>name = ''A.jpg'', body = ''jpeg bytes of another receipt''\<rparr>"

definition world_same_tick :: "ExpenseData env" where
  "world_same_tick =
     \<lparr>Date_now = (\<lambda>k. 1730534400000),
      createObjectURL = (\<lambda>k file. ''blob:'' @ show_nat k),
      await_extractTextFromImage = (\<lambda>k file.
         if k = 0 then Inl (Thrown (Some ''Failed to fetch''))
         else Inr ''CAFE LUNA 2x LATTE 12.50''),
      await_generateExpenseJson = (\<lambda>k t. Inr (Some expenseA)),
      await_saveToGoogleSheets = (\<lambda>k d tok sid. Inr ())\<rparr>"

text \<open>
  Upstream responses: a receipt in the expected shape, an object that lacks three of the
  four required keys, and prose instead of JSON.
\<close>

definition receipt_json :: utf16 where
  \<open>receipt_json = ascii ''{"merchant":"Cafe Luna","date":"2026-01-05","total":12.5,"items":[{"item":"Latte","quantity":2,"price":6.25}]}''\<close>

definition upstream_receipt :: "string \<Rightarrow> thrown + GenerateContentResponse" where
  "upstream_receipt p = Inr \<lparr>response_text = Some receipt_json\<rparr>"

definition upstream_items_only :: "string \<Rightarrow> thrown + GenerateContentResponse" where
  \<open>upstream_items_only p = Inr \<lparr>response_text = Some (ascii '' {"items":[]} '')\<rparr>\<close>

definition upstream_prose :: "string \<Rightarrow> thrown + GenerateContentResponse" where
  "upstream_prose p = Inr \<lparr>response_text = Some (ascii ''Sorry, I cannot read this receipt.'')\<rparr>"

definition app0_json :: "json app" where
  "app0_json = \<lparr>isProcessing = False, processedReceipts = [], trace = []\<rparr>"

text \<open>A world whose structuring call is the service function over that second response.\<close>

definition world_items_only :: "json env" where
  "world_items_only =
     \<lparr>Date_now = (\<lambda>k. 1730534400000 + 900 * k),
      createObjectURL = (\<lambda>k file. ''blob:'' @ name file),
      await_extractTextFromImage = (\<lambda>k file. Inr ''CAFE LUNA 2x LATTE 12.50''),
      await_generateExpenseJson = (\<lambda>k t. resolved_data (generateExpenseJson upstream_items_only t)),
      await_saveToGoogleSheets = (\<lambda>k d tok sid. Inr ())\<rparr>"

text \<open>
  The world of the colliding ids again, where the second job now gets through extraction
  and structuring and has its spreadsheet write refused; and one where the second job's
  extraction resolves to the empty string.
\<close>

definition world_same_tick_refused :: "ExpenseData env" where
  "world_same_tick_refused =
     \<lparr>Date_now = (\<lambda>k. 1730534400000),
      createObjectURL = (\<lambda>k file. ''blob:'' @ show_nat k),
      await_extractTextFromImage = (\<lambda>k file.
         if k = 0 then Inl (Thrown (Some ''Failed to fetch''))
         else Inr ''CAFE LUNA 2x LATTE 12.50''),
      await_generateExpenseJson = (\<lambda>k t. Inr (Some expenseA)),
      await_saveToGoogleSheets = (\<lambda>k d tok sid.
         Inl (Thrown (Some ''The caller does not have permission'')))\<rparr>"

definition world_same_tick_empty :: "ExpenseData env" where
  "world_same_tick_empty =
     \<lparr>Date_now = (\<lambda>k. 1730534400000),
      createObjectURL = (\<lambda>k file. ''blob:'' @ show_nat k),
      await_extractTextFromImage = (\<lambda>k file.
         if k = 0 then Inl (Thrown (Some ''Failed to fetch'')) else Inr ''''),
      await_generateExpenseJson = (\<lambda>k t. Inr (Some expenseA)),
      await_saveToGoogleSheets = (\<lambda>k d tok sid. Inr ())\<rparr>"

text \<open>
  An upstream response whose text is the JSON literal \<^verbatim>\<open>null\<close>, and a world whose
  structuring call is the service function over it. The persistence call made with
  \<^verbatim>\<open>null\<close> is rejected, as the destructuring at the head of
  \<^verbatim>\<open>saveToGoogleSheets\<close> throws a \<^verbatim>\<open>TypeError\<close>.
\<close>

definition upstream_null :: "string \<Rightarrow> thrown + GenerateContentResponse" where
  "upstream_null p = Inr \<lparr>response_text = Some (ascii ''null'')\<rparr>"

definition world_null_result :: "json env" where
  "world_null_result =
     \<lparr>Date_now = (\<lambda>k. 1730534400000 + 900 * k),
      createObjectURL = (\<lambda>k file. ''blob:'' @ name file),
      await_extractTextFromImage = (\<lambda>k file. Inr ''CAFE LUNA 2x LATTE 12.50''),
      await_generateExpenseJson = (\<lambda>k t. resolved_data (generateExpenseJson upstream_null t)),
      await_saveToGoogleSheets = (\<lambda>k d tok sid.
         case d of None \<Rightarrow> Inl (Thrown (Some ''expenseData is null'')) | Some v \<Rightarrow> Inr ())\<rparr>"

text \<open>
  The page at rest, still showing the record of an earlier batch; and a sequence of
  happenings: a click that starts a batch of two files, a second click while the first
  extraction call is pending, the settling of that call, and a third click.
\<close>

definition page_idle :: "ExpenseData page" where
  "page_idle =
     \<lparr>page_app = \<lparr>isProcessing = False, processedReceipts = [receipt_a], trace = []\<rparr>,
      page_runs = []\<rparr>"

definition clicks_while_busy :: "ExpenseData happening list" where
  "clicks_while_busy =
     [Click world_AB [fileA, fileB] ''ya29.token'' ''sheet-1'',
      Click world_same_tick [fileA2] ''ya29.token'' ''sheet-1'',
      Settled 0,
      Click world_same_tick [fileA2] ''ya29.token'' ''sheet-1'']"

section \<open>Properties of the job state store\<close>

lemma findIndex_None_iff: "findIndex P xs = None \<longleftrightarrow> (\<forall>x\<in>set xs. \<not> P x)"
  by (induction xs) (auto split: option.splits)

lemma findIndex_Some_iff:
  "findIndex P xs = Some i \<longleftrightarrow> i < length xs \<and> P (xs ! i) \<and> (\<forall>j<i. \<not> P (xs ! j))"
proof (induction xs arbitrary: i)
  case Nil
  then show ?case by simp
next
  case (Cons x xs)
  show ?case
  proof (cases "P x")
    case True
    then show ?thesis by (cases i) auto
  next
    case False
    show ?thesis
    proof (cases i)
      case 0
      with False show ?thesis by (auto split: option.splits)
    next
      case (Suc n)
      have "(\<forall>j<Suc n. \<not> P ((x # xs) ! j)) \<longleftrightarrow> (\<forall>j<n. \<not> P (xs ! j))"
        using False by (auto simp: less_Suc_eq_0_disj)
      with False Suc Cons.IH [of n] show ?thesis
        by (auto split: option.splits)
    qed
  qed
qed

lemma findIndex_update_same:
  assumes "findIndex P xs = Some i" "P y"
  shows "findIndex P (xs[i := y]) = Some i"
  using assms unfolding findIndex_Some_iff
  by (auto simp: nth_list_update)


lemma updateResult_absent:
  assumes "jid \<notin> id' ` set results"
  shows "updateResult jid u (results, a) = (results, a)"
proof -
  from assms have "findIndex (\<lambda>r. id' r = jid) results = None"
    by (auto simp: findIndex_None_iff)
  then show ?thesis by (simp add: updateResult_def)
qed

lemma updateResult_present:
  assumes "jid \<in> id' ` set results"
  obtains i where "i < length results" "id' (results ! i) = jid"
    "\<forall>j<i. id' (results ! j) \<noteq> jid"
    "findIndex (\<lambda>r. id' r = jid) results = Some i"
    "updateResult jid u (results, a) =
       (results[i := spread (results ! i) u],
        setProcessedReceipts (results[i := spread (results ! i) u]) a)"
proof -
  from assms have "findIndex (\<lambda>r. id' r = jid) results \<noteq> None"
    by (auto simp: findIndex_None_iff)
  then obtain i where i: "findIndex (\<lambda>r. id' r = jid) results = Some i" by auto
  then have "i < length results" "id' (results ! i) = jid" "\<forall>j<i. id' (results ! j) \<noteq> jid"
    by (simp_all add: findIndex_Some_iff)
  moreover from i have "updateResult jid u (results, a) =
       (results[i := spread (results ! i) u],
        setProcessedReceipts (results[i := spread (results ! i) u]) a)"
    by (simp add: updateResult_def Let_def)
  ultimately show ?thesis using that i by blast
qed

text \<open>
  C7. A partial update whose id matches no record of the collection changes nothing: the
  call returns normally and hands back the very same array and application state, so no
  record is made up and no snapshot is published. When the id matches, the first
  matching record is replaced by its spread with the update, every other position keeps
  its record, the length is unchanged, and the new array is published. In the spread, a
  field the update names takes the update's value and every other field keeps its own.
\<close>

theorem updateResult_noop_or_merge:
  "(jid \<notin> id' ` set results \<longrightarrow> updateResult jid u (results, a) = (results, a)) \<and>
   (jid \<in> id' ` set results \<longrightarrow>
      (\<exists>i<length results. id' (results ! i) = jid \<and>
         fst (updateResult jid u (results, a)) = results[i := spread (results ! i) u] \<and>
         length (fst (updateResult jid u (results, a))) = length results \<and>
         (\<forall>j<length results. j \<noteq> i \<longrightarrow> fst (updateResult jid u (results, a)) ! j = results ! j) \<and>
         processedReceipts (snd (updateResult jid u (results, a))) =
           fst (updateResult jid u (results, a)))) \<and>
   id' (spread r u) = (case id_upd u of None \<Rightarrow> id' r | Some v \<Rightarrow> v) \<and>
   imagePreview (spread r u) = (case imagePreview_upd u of None \<Rightarrow> imagePreview r | Some v \<Rightarrow> v) \<and>
   status (spread r u) = (case status_upd u of None \<Rightarrow> status r | Some v \<Rightarrow> v) \<and>
   data (spread r u) = (case data_upd u of None \<Rightarrow> data r | Some v \<Rightarrow> v) \<and>
   saveStatus (spread r u) = (case saveStatus_upd u of None \<Rightarrow> saveStatus r | Some v \<Rightarrow> v) \<and>
   error (spread r u) = (case error_upd u of None \<Rightarrow> error r | Some v \<Rightarrow> v)"
proof -
  have absent: "jid \<notin> id' ` set results \<longrightarrow> updateResult jid u (results, a) = (results, a)"
    using updateResult_absent by blast
  have present: "jid \<in> id' ` set results \<longrightarrow>
      (\<exists>i<length results. id' (results ! i) = jid \<and>
         fst (updateResult jid u (results, a)) = results[i := spread (results ! i) u] \<and>
         length (fst (updateResult jid u (results, a))) = length results \<and>
         (\<forall>j<length results. j \<noteq> i \<longrightarrow> fst (updateResult jid u (results, a)) ! j = results ! j) \<and>
         processedReceipts (snd (updateResult jid u (results, a))) =
           fst (updateResult jid u (results, a)))"
  proof
    assume "jid \<in> id' ` set results"
    then obtain i where i: "i < length results" "id' (results ! i) = jid"
      and eq: "updateResult jid u (results, a) =
       (results[i := spread (results ! i) u],
        setProcessedReceipts (results[i := spread (results ! i) u]) a)"
      by (rule updateResult_present)
    show "\<exists>i<length results. id' (results ! i) = jid \<and>
         fst (updateResult jid u (results, a)) = results[i := spread (results ! i) u] \<and>
         length (fst (updateResult jid u (results, a))) = length results \<and>
         (\<forall>j<length results. j \<noteq> i \<longrightarrow> fst (updateResult jid u (results, a)) ! j = results ! j) \<and>
         processedReceipts (snd (updateResult jid u (results, a))) =
           fst (updateResult jid u (results, a))"
      using i by (intro exI [of _ i]) (simp add: eq setProcessedReceipts_def)
  qed
  show ?thesis
    using absent present by (simp add: spread_def)
qed

theorem updateResult_noop_or_merge_witness:
  "updateResult ''c.jpg1730534400000'' (no_update\<lparr>status_upd := Some ''Failed''\<rparr>) ([receipt_a, receipt_b], app0)
     = ([receipt_a, receipt_b], app0) \<and>
   fst (updateResult ''b.jpg1730534400007'' (no_update\<lparr>status_upd := Some ''Failed''\<rparr>) ([receipt_a, receipt_b], app0))
     = [receipt_a, receipt_b\<lparr>status := ''Failed''\<rparr>]"
  using updateResult_noop_or_merge [of "''c.jpg1730534400000''" "[receipt_a, receipt_b]"
           "no_update\<lparr>status_upd := Some ''Failed''\<rparr>" app0 receipt_b]
        updateResult_noop_or_merge [of "''b.jpg1730534400007''" "[receipt_a, receipt_b]"
           "no_update\<lparr>status_upd := Some ''Failed''\<rparr>" app0 receipt_b]
  by (auto simp: receipt_a_def receipt_b_def no_update_def spread_def less_Suc_eq)





section \<open>Facts about the store used by the orchestrator\<close>

lemma app_simps [simp]:
  "trace (setProcessedReceipts rs a) = trace a @ [SetProcessedReceipts rs]"
  "processedReceipts (setProcessedReceipts rs a) = rs"
  "isProcessing (setProcessedReceipts rs a) = isProcessing a"
  "trace (call e a) = trace a @ [e]"
  "processedReceipts (call e a) = processedReceipts a"
  "isProcessing (call e a) = isProcessing a"
  "trace (setIsProcessing b a) = trace a @ [SetIsProcessing b]"
  "processedReceipts (setIsProcessing b a) = processedReceipts a"
  "isProcessing (setIsProcessing b a) = b"
  "trace (alert m a) = trace a @ [Alert m]"
  "processedReceipts (alert m a) = processedReceipts a"
  "isProcessing (alert m a) = isProcessing a"
  by (simp_all add: setProcessedReceipts_def call_def setIsProcessing_def alert_def)

lemma no_update_simps [simp]:
  "id_upd no_update = None" "imagePreview_upd no_update = None" "status_upd no_update = None"
  "data_upd no_update = None" "saveStatus_upd no_update = None" "error_upd no_update = None"
  by (simp_all add: no_update_def)

lemma snapshots_append [simp]: "snapshots (xs @ ys) = snapshots xs @ snapshots ys"
  by (induction xs rule: snapshots.induct) simp_all

lemma extract_calls_append [simp]: "extract_calls (xs @ ys) = extract_calls xs @ extract_calls ys"
  by (induction xs rule: extract_calls.induct) simp_all

lemma structure_calls_append [simp]: "structure_calls (xs @ ys) = structure_calls xs @ structure_calls ys"
  by (induction xs rule: structure_calls.induct) simp_all

lemma findIndex_id_None: "findIndex (\<lambda>r. id' r = jid) rs = None \<longleftrightarrow> jid \<notin> id' ` set rs"
  by (auto simp: findIndex_None_iff)

lemma results_after_absent: "jid \<notin> id' ` set rs \<Longrightarrow> results_after jid u rs = rs"
  using findIndex_id_None [of jid rs] by (simp add: results_after_def)

lemma updateResult_eq:
  "updateResult jid u (rs, a) =
     (if jid \<in> id' ` set rs
      then (results_after jid u rs, setProcessedReceipts (results_after jid u rs) a)
      else (rs, a))"
proof (cases "jid \<in> id' ` set rs")
  case False
  then show ?thesis by (simp add: updateResult_absent)
next
  case True
  then obtain i where "findIndex (\<lambda>r. id' r = jid) rs = Some i"
    by (rule updateResult_present)
  with True show ?thesis
    by (simp add: results_after_def updateResult_def Let_def)
qed

lemma results_after_found:
  "findIndex (\<lambda>r. id' r = jid) rs = Some i \<Longrightarrow> results_after jid u rs = rs[i := spread (rs ! i) u]"
  by (simp add: results_after_def)

lemma ids_results_after [simp]:
  assumes "id_upd u = None"
  shows "map id' (results_after jid u rs) = map id' rs"
proof (cases "findIndex (\<lambda>r. id' r = jid) rs")
  case None
  then show ?thesis by (simp add: results_after_absent findIndex_id_None)
next
  case (Some i)
  then have "i < length rs" by (simp add: findIndex_Some_iff)
  then have "(map id' rs)[i := id' (rs ! i)] = map id' rs"
    by (simp add: list_update_same_conv)
  with assms Some show ?thesis
    by (simp add: results_after_found map_update spread_def)
qed

lemma set_ids_results_after [simp]:
  "id_upd u = None \<Longrightarrow> id' ` set (results_after jid u rs) = id' ` set rs"
  using ids_results_after [of u jid rs] by (metis set_map)

lemma length_results_after [simp]: "length (results_after jid u rs) = length rs"
  by (cases "findIndex (\<lambda>r. id' r = jid) rs")
    (simp_all add: results_after_found results_after_absent findIndex_id_None)

lemma job_record_None_iff: "job_record jid rs = None \<longleftrightarrow> jid \<notin> id' ` set rs"
  by (simp add: job_record_def findIndex_id_None [symmetric] split: option.splits)

lemma job_record_id: "job_record jid rs = Some r \<Longrightarrow> id' r = jid"
  by (auto simp: job_record_def findIndex_Some_iff split: option.splits)

lemma job_record_results_after_same:
  assumes "id_upd u = None"
  shows "job_record jid (results_after jid u rs) = map_option (\<lambda>r. spread r u) (job_record jid rs)"
proof (cases "findIndex (\<lambda>r. id' r = jid) rs")
  case None
  then have "jid \<notin> id' ` set rs" by (simp add: findIndex_id_None)
  with None show ?thesis
    by (simp add: results_after_absent job_record_def)
next
  case (Some i)
  then have i: "i < length rs" "id' (rs ! i) = jid" by (simp_all add: findIndex_Some_iff)
  with assms have "id' (spread (rs ! i) u) = jid" by (simp add: spread_def)
  with Some have "findIndex (\<lambda>r. id' r = jid) (rs[i := spread (rs ! i) u]) = Some i"
    by (simp add: findIndex_update_same)
  with Some i show ?thesis
    by (simp add: results_after_found job_record_def)
qed

lemma job_record_results_after_other:
  assumes "id_upd u = None" "other \<noteq> jid"
  shows "job_record other (results_after jid u rs) = job_record other rs"
proof (cases "findIndex (\<lambda>r. id' r = jid) rs")
  case None
  then show ?thesis
    by (simp add: results_after_absent findIndex_id_None)
next
  case (Some i)
  then have i: "i < length rs" "id' (rs ! i) = jid" by (simp_all add: findIndex_Some_iff)
  with assms have y: "id' (spread (rs ! i) u) \<noteq> other" by (simp add: spread_def)
  have "findIndex (\<lambda>r. id' r = other) (rs[i := spread (rs ! i) u]) = findIndex (\<lambda>r. id' r = other) rs"
  proof (cases "findIndex (\<lambda>r. id' r = other) rs")
    case None
    then have "\<forall>x\<in>set (rs[i := spread (rs ! i) u]). id' x \<noteq> other"
      using y set_update_subset_insert [of rs i "spread (rs ! i) u"]
      by (auto simp: findIndex_None_iff)
    then have "findIndex (\<lambda>r. id' r = other) (rs[i := spread (rs ! i) u]) = None"
      by (simp add: findIndex_None_iff)
    with None show ?thesis by simp
  next
    case (Some m)
    then have m: "m < length rs" "id' (rs ! m) = other" "\<forall>j<m. id' (rs ! j) \<noteq> other"
      by (simp_all add: findIndex_Some_iff)
    with i assms have "m \<noteq> i" by auto
    with m y i have "m < length (rs[i := spread (rs ! i) u]) \<and>
        id' (rs[i := spread (rs ! i) u] ! m) = other \<and>
        (\<forall>j<m. id' (rs[i := spread (rs ! i) u] ! j) \<noteq> other)"
      by (auto simp: nth_list_update)
    then have "findIndex (\<lambda>r. id' r = other) (rs[i := spread (rs ! i) u]) = Some m"
      using findIndex_Some_iff [of "\<lambda>r. id' r = other" "rs[i := spread (rs ! i) u]" m] by blast
    with Some show ?thesis by simp
  qed
  moreover have "\<And>m. findIndex (\<lambda>r. id' r = other) rs = Some m \<Longrightarrow> m \<noteq> i"
    using i assms by (auto simp: findIndex_Some_iff)
  ultimately show ?thesis using Some
    by (auto simp: results_after_found job_record_def split: option.splits)
qed

lemma job_record_append:
  "job_record jid (rs @ [r]) =
     (case job_record jid rs of Some x \<Rightarrow> Some x | None \<Rightarrow> if id' r = jid then Some r else None)"
proof (cases "findIndex (\<lambda>r. id' r = jid) rs")
  case None
  then have no: "\<forall>x\<in>set rs. id' x \<noteq> jid" by (simp add: findIndex_None_iff)
  show ?thesis
  proof (cases "id' r = jid")
    case True
    with no have "findIndex (\<lambda>r. id' r = jid) (rs @ [r]) = Some (length rs)"
      by (auto simp: findIndex_Some_iff nth_append)
    with None True show ?thesis by (simp add: job_record_def)
  next
    case False
    with no have "findIndex (\<lambda>r. id' r = jid) (rs @ [r]) = None"
      by (simp add: findIndex_None_iff)
    with None False show ?thesis by (simp add: job_record_def)
  qed
next
  case (Some i)
  then have i: "i < length rs" by (simp add: findIndex_Some_iff)
  from Some have "findIndex (\<lambda>r. id' r = jid) (rs @ [r]) = Some i"
    by (auto simp: findIndex_Some_iff nth_append)
  with Some i show ?thesis
    by (simp add: job_record_def nth_append)
qed

section \<open>One loop iteration as a list of steps\<close>

lemma run_steps_append: "run_steps jid (xs @ ys) s = run_steps jid ys (run_steps jid xs s)"
  by (induction jid xs s rule: run_steps.induct) simp_all

lemma on_catch_upd: "on_catch jid e s = updateResult jid (upd_failed e) s"
  by (simp add: on_catch_def upd_failed_def)

lemma after_persist_steps:
  "after_persist jid r s = run_steps jid (steps_after_persist r) s"
  by (cases r) (simp_all add: after_persist_def steps_after_persist_def on_catch_upd)

lemma after_structure_steps:
  "(case after_structure jid tok sid (await_generateExpenseJson E k t) s of
      (None, s') \<Rightarrow> s'
    | (Some expenseData, s') \<Rightarrow> after_persist jid (await_saveToGoogleSheets E k expenseData tok sid) s')
   = run_steps jid (steps_after_structure E tok sid k (await_generateExpenseJson E k t)) s"
  by (cases "await_generateExpenseJson E k t")
    (simp_all add: after_structure_def steps_after_structure_def on_catch_upd after_persist_steps
       run_steps_append split: prod.splits)

lemma process_file_steps:
  "process_file E tok sid k file s =
     run_steps (id' (initialResult E k file)) (job_steps E tok sid k file) (job_start E k file s)"
proof (cases "await_extractTextFromImage E k file")
  case (Inl e)
  then show ?thesis
    by (simp add: process_file_def job_steps_def after_extract_def on_catch_upd)
next
  case (Inr t)
  show ?thesis
  proof (cases "t = []")
    case True
    with Inr show ?thesis
      by (simp add: process_file_def job_steps_def after_extract_def on_catch_upd)
  next
    case False
    obtain rs1 a1 where u: "updateResult (id' (initialResult E k file))
        (no_update\<lparr>status_upd := Some ''Structuring data...''\<rparr>) (job_start E k file s) = (rs1, a1)"
      by (cases "updateResult (id' (initialResult E k file))
        (no_update\<lparr>status_upd := Some ''Structuring data...''\<rparr>) (job_start E k file s)")
    from Inr False show ?thesis
      by (simp add: process_file_def job_steps_def after_extract_def after_structure_steps u Let_def)
  qed
qed

lemma steps_after_persist_good:
  "Upd u \<in> set (steps_after_persist r) \<Longrightarrow> id_upd u = None \<and> saveStatus_upd u \<noteq> Some pending"
  by (cases r) (auto simp: steps_after_persist_def upd_failed_def)

lemma steps_after_structure_good:
  "Upd u \<in> set (steps_after_structure E tok sid k r) \<Longrightarrow> id_upd u = None \<and> saveStatus_upd u \<noteq> Some pending"
  by (cases r) (auto simp: steps_after_structure_def upd_failed_def dest: steps_after_persist_good)

lemma job_steps_good:
  "Upd u \<in> set (job_steps E tok sid k file) \<Longrightarrow> id_upd u = None \<and> saveStatus_upd u \<noteq> Some pending"
  by (cases "await_extractTextFromImage E k file")
    (auto simp: job_steps_def upd_failed_def dest: steps_after_structure_good split: if_splits)

lemma steps_after_persist_events: "Ev e \<in> set (steps_after_persist r) \<Longrightarrow> False"
  by (cases r) (auto simp: steps_after_persist_def)

lemma steps_after_structure_events:
  "Ev e \<in> set (steps_after_structure E tok sid k r) \<Longrightarrow> \<exists>d. e = CallPersist d tok sid"
  by (cases r) (auto simp: steps_after_structure_def dest: steps_after_persist_events)

lemma job_steps_events:
  "Ev e \<in> set (job_steps E tok sid k file) \<Longrightarrow> (\<exists>t. e = CallStructure t) \<or> (\<exists>d. e = CallPersist d tok sid)"
  by (cases "await_extractTextFromImage E k file")
    (auto simp: job_steps_def dest: steps_after_structure_events split: if_splits)

lemma steps_after_persist_last:
  "\<exists>u. steps_after_persist r = [Upd u] \<and> id_upd u = None \<and>
       (saveStatus_upd u = Some success \<or> saveStatus_upd u = Some failed)"
  by (cases r) (simp_all add: steps_after_persist_def upd_failed_def)

lemma steps_after_structure_last:
  fixes E :: "'d env"
  shows "\<exists>st u. steps_after_structure E tok sid k r = st @ [Upd u] \<and> id_upd u = None \<and>
       (saveStatus_upd u = Some success \<or> saveStatus_upd u = Some failed)"
proof (cases r)
  case (Inl e)
  then have "steps_after_structure E tok sid k r = [] @ [Upd (upd_failed e)]"
    by (simp add: steps_after_structure_def)
  then show ?thesis by (fastforce simp: upd_failed_def)
next
  case (Inr d)
  obtain u :: "'d Partial_ProcessedReceipt"
    where u: "steps_after_persist (await_saveToGoogleSheets E k d tok sid) = [Upd u]"
    "id_upd u = None" "saveStatus_upd u = Some success \<or> saveStatus_upd u = Some failed"
    using steps_after_persist_last by blast
  with Inr have "steps_after_structure E tok sid k r =
      [Upd (no_update\<lparr>status_upd := Some ''Data extracted'', data_upd := Some d\<rparr>),
       Upd (no_update\<lparr>status_upd := Some ''Saving to Google Sheets...''\<rparr>),
       Ev (CallPersist d tok sid)] @ [Upd u]"
    by (simp add: steps_after_structure_def)
  with u show ?thesis by blast
qed

lemma job_steps_last:
  "\<exists>st u. job_steps E tok sid k file = st @ [Upd u] \<and> id_upd u = None \<and>
       (saveStatus_upd u = Some success \<or> saveStatus_upd u = Some failed)"
proof (cases "await_extractTextFromImage E k file")
  case (Inl e)
  then have "job_steps E tok sid k file = [] @ [Upd (upd_failed e)]"
    by (simp add: job_steps_def)
  then show ?thesis by (fastforce simp: upd_failed_def)
next
  case (Inr t)
  show ?thesis
  proof (cases "t = []")
    case True
    with Inr have "job_steps E tok sid k file =
        [] @ [Upd (upd_failed (Thrown (Some ''Could not extract any text. The image might be unclear.'')))]"
      by (simp add: job_steps_def)
    then show ?thesis by (fastforce simp: upd_failed_def)
  next
    case False
    obtain st u where u: "steps_after_structure E tok sid k (await_generateExpenseJson E k t) = st @ [Upd u]"
      "id_upd u = None" "saveStatus_upd u = Some success \<or> saveStatus_upd u = Some failed"
      using steps_after_structure_last by blast
    with Inr False have "job_steps E tok sid k file =
        ([Upd (no_update\<lparr>status_upd := Some ''Structuring data...''\<rparr>), Ev (CallStructure t)] @ st) @ [Upd u]"
      by (simp add: job_steps_def)
    with u show ?thesis by blast
  qed
qed

lemma run_steps_ids:
  assumes "\<forall>u. Upd u \<in> set steps \<longrightarrow> id_upd u = None"
  shows "map id' (fst (run_steps jid steps s)) = map id' (fst s)"
  using assms
proof (induction jid steps s rule: run_steps.induct)
  case (2 jid u steps s)
  then show ?case by (cases s) (simp add: updateResult_eq)
qed simp_all

lemma saveStatus_spread:
  "saveStatus (spread r u) = (case saveStatus_upd u of None \<Rightarrow> saveStatus r | Some v \<Rightarrow> v)"
  by (simp add: spread_def)

lemma settled_results_after:
  assumes "id_upd u = None" "saveStatus_upd u \<noteq> Some pending" "settled rs i"
  shows "settled (results_after jid u rs) i"
proof (cases "i = jid")
  case True
  with assms show ?thesis
    by (auto simp: settled_def job_record_results_after_same saveStatus_spread split: option.splits)
next
  case False
  with assms show ?thesis
    by (simp add: settled_def job_record_results_after_other)
qed

lemma settled_by_terminal_update:
  assumes "jid \<in> id' ` set rs" "id_upd u = None"
    "saveStatus_upd u = Some success \<or> saveStatus_upd u = Some failed"
  shows "settled (results_after jid u rs) jid"
proof -
  from assms(1) obtain r where "job_record jid rs = Some r"
    using job_record_None_iff [of jid rs] by auto
  with assms show ?thesis
    by (auto simp: settled_def job_record_results_after_same saveStatus_spread)
qed

lemma one_job_in_flight_results_after:
  assumes "id_upd u = None" "saveStatus_upd u \<noteq> Some pending" "one_job_in_flight rs"
  shows "one_job_in_flight (results_after jid u rs)"
  using assms by (simp add: one_job_in_flight_def list_all_iff settled_results_after)

lemma settled_append: "settled rs i \<Longrightarrow> settled (rs @ [r]) i"
  by (simp add: settled_def job_record_append split: option.splits)

lemma one_job_in_flight_push:
  assumes "list_all (settled rs) (map id' rs)"
  shows "one_job_in_flight (rs @ [r])"
  using assms by (simp add: one_job_in_flight_def list_all_iff settled_append)

lemma all_settled_from_in_flight:
  assumes "one_job_in_flight rs" "map id' rs = ids @ [jid]" "settled rs jid"
  shows "list_all (settled rs) (map id' rs)"
  using assms by (simp add: one_job_in_flight_def list_all_iff)

lemma run_steps_in_flight:
  assumes "\<forall>u. Upd u \<in> set steps \<longrightarrow> id_upd u = None \<and> saveStatus_upd u \<noteq> Some pending"
    and "\<forall>e. Ev e \<in> set steps \<longrightarrow> snapshots [e] = []"
    and "n \<le> length (trace (snd s))"
    and "one_job_in_flight (fst s)"
    and "\<forall>snap\<in>set (snapshots (drop n (trace (snd s)))). one_job_in_flight snap"
  shows "n \<le> length (trace (snd (run_steps jid steps s))) \<and>
         one_job_in_flight (fst (run_steps jid steps s)) \<and>
         (\<forall>snap\<in>set (snapshots (drop n (trace (snd (run_steps jid steps s))))). one_job_in_flight snap)"
  using assms
proof (induction jid steps s rule: run_steps.induct)
  case (1 jid s)
  then show ?case by simp
next
  case (2 jid u steps s)
  obtain rs a where s: "s = (rs, a)" by (cases s)
  have u: "id_upd u = None" "saveStatus_upd u \<noteq> Some pending"
    using "2.prems"(1) by simp_all
  have "n \<le> length (trace (snd (updateResult jid u s))) \<and>
        one_job_in_flight (fst (updateResult jid u s)) \<and>
        (\<forall>snap\<in>set (snapshots (drop n (trace (snd (updateResult jid u s))))). one_job_in_flight snap)"
    using "2.prems"(3,4,5) u
    by (simp add: s updateResult_eq one_job_in_flight_results_after)
  with "2.IH" "2.prems"(1,2) show ?case by simp
next
  case (3 jid e steps s)
  have "snapshots [e] = []" using "3.prems"(2) by simp
  with "3.prems"(3,4,5)
  have "n \<le> length (trace (snd (fst s, call e (snd s)))) \<and>
        one_job_in_flight (fst (fst s, call e (snd s))) \<and>
        (\<forall>snap\<in>set (snapshots (drop n (trace (snd (fst s, call e (snd s)))))). one_job_in_flight snap)"
    by simp
  with "3.IH" "3.prems"(1,2) show ?case by simp
qed

lemmas run_defs =
  handleProcessReceipts_def batch_start_def process_file_def job_start_def
  after_extract_def after_structure_def after_persist_def on_catch_def caught_message_def
  updateResult_def initialResult_def Let_def spread_def no_update_def
  show_nat.simps digit_char_def batch_events_def

lemma job_start_pair:
  "job_start E k file (rs, a) =
     (rs @ [initialResult E k file],
      call (CallExtract file) (setProcessedReceipts (rs @ [initialResult E k file]) a))"
  by (simp add: job_start_def Let_def)

lemma process_file_ids:
  "map id' (fst (process_file E tok sid k file s)) = map id' (fst s) @ [id' (initialResult E k file)]"
proof -
  obtain rs a where s: "s = (rs, a)" by (cases s)
  have "\<forall>u. Upd u \<in> set (job_steps E tok sid k file) \<longrightarrow> id_upd u = None"
    using job_steps_good by blast
  then show ?thesis
    by (simp add: process_file_steps run_steps_ids s job_start_pair)
qed

lemma process_file_settles:
  "settled (fst (process_file E tok sid k file s)) (id' (initialResult E k file))"
proof -
  let ?jid = "id' (initialResult E k file)"
  obtain st u where st: "job_steps E tok sid k file = st @ [Upd u]" "id_upd u = None"
    "saveStatus_upd u = Some success \<or> saveStatus_upd u = Some failed"
    using job_steps_last by blast
  obtain rs a where s: "s = (rs, a)" by (cases s)
  obtain rs' a' where s': "run_steps ?jid st (job_start E k file s) = (rs', a')"
    by (cases "run_steps ?jid st (job_start E k file s)")
  have "\<forall>v. Upd v \<in> set st \<longrightarrow> id_upd v = None"
    using job_steps_good [of _ E tok sid k "file"] st(1) by simp
  then have "map id' (fst (run_steps ?jid st (job_start E k file s))) = map id' (fst (job_start E k file s))"
    by (rule run_steps_ids)
  then have "map id' rs' = map id' rs @ [?jid]"
    using s' by (simp add: s job_start_pair)
  then have "set (map id' rs') = set (map id' rs @ [?jid])" by simp
  then have present: "?jid \<in> id' ` set rs'" by simp
  have "process_file E tok sid k file s = updateResult ?jid u (rs', a')"
    by (simp add: process_file_steps st(1) run_steps_append s')
  with present st(2,3) show ?thesis
    by (simp add: updateResult_eq settled_by_terminal_update)
qed

lemma process_file_in_flight:
  assumes "n \<le> length (trace (snd s))"
    and "list_all (settled (fst s)) (map id' (fst s))"
    and "\<forall>snap\<in>set (snapshots (drop n (trace (snd s)))). one_job_in_flight snap"
  shows "n \<le> length (trace (snd (process_file E tok sid k file s))) \<and>
         list_all (settled (fst (process_file E tok sid k file s)))
           (map id' (fst (process_file E tok sid k file s))) \<and>
         (\<forall>snap\<in>set (snapshots (drop n (trace (snd (process_file E tok sid k file s))))).
            one_job_in_flight snap)"
proof -
  let ?jid = "id' (initialResult E k file)"
  let ?s1 = "job_start E k file s"
  obtain rs a where s: "s = (rs, a)" by (cases s)
  have pushed: "one_job_in_flight (rs @ [initialResult E k file])"
    using assms(2) by (simp add: s one_job_in_flight_push)
  have a1: "n \<le> length (trace (snd ?s1))"
    using assms(1) by (simp add: s job_start_pair)
  have a2: "one_job_in_flight (fst ?s1)"
    using pushed by (simp add: s job_start_pair)
  have a3: "\<forall>snap\<in>set (snapshots (drop n (trace (snd ?s1)))). one_job_in_flight snap"
    using assms(1,3) pushed by (simp add: s job_start_pair)
  have g1: "\<forall>u. Upd u \<in> set (job_steps E tok sid k file) \<longrightarrow>
              id_upd u = None \<and> saveStatus_upd u \<noteq> Some pending"
    using job_steps_good by blast
  have g2: "\<forall>e. Ev e \<in> set (job_steps E tok sid k file) \<longrightarrow> snapshots [e] = []"
  proof (intro allI impI)
    fix e :: "'a event"
    assume "Ev e \<in> set (job_steps E tok sid k file)"
    then have "(\<exists>t. e = CallStructure t) \<or> (\<exists>d. e = CallPersist d tok sid)"
      by (rule job_steps_events)
    then show "snapshots [e] = []" by auto
  qed
  have run: "n \<le> length (trace (snd (process_file E tok sid k file s))) \<and>
         one_job_in_flight (fst (process_file E tok sid k file s)) \<and>
         (\<forall>snap\<in>set (snapshots (drop n (trace (snd (process_file E tok sid k file s))))).
            one_job_in_flight snap)"
    unfolding process_file_steps by (rule run_steps_in_flight [OF g1 g2 a1 a2 a3])
  moreover have "list_all (settled (fst (process_file E tok sid k file s)))
           (map id' (fst (process_file E tok sid k file s)))"
    using run process_file_ids [of E tok sid k "file" s] process_file_settles [of E tok sid k "file" s]
    by (intro all_settled_from_in_flight) auto
  ultimately show ?thesis by blast
qed

lemma process_files_in_flight:
  assumes "n \<le> length (trace (snd s))"
    and "list_all (settled (fst s)) (map id' (fst s))"
    and "\<forall>snap\<in>set (snapshots (drop n (trace (snd s)))). one_job_in_flight snap"
  shows "n \<le> length (trace (snd (process_files E tok sid k files s))) \<and>
         list_all (settled (fst (process_files E tok sid k files s)))
           (map id' (fst (process_files E tok sid k files s))) \<and>
         (\<forall>snap\<in>set (snapshots (drop n (trace (snd (process_files E tok sid k files s))))).
            one_job_in_flight snap)"
  using assms
proof (induction files arbitrary: k s)
  case Nil
  then show ?case by simp
next
  case (Cons f fs)
  have "n \<le> length (trace (snd (process_file E tok sid k f s))) \<and>
         list_all (settled (fst (process_file E tok sid k f s)))
           (map id' (fst (process_file E tok sid k f s))) \<and>
         (\<forall>snap\<in>set (snapshots (drop n (trace (snd (process_file E tok sid k f s))))).
            one_job_in_flight snap)"
    using Cons.prems by (intro process_file_in_flight) simp_all
  then show ?case
    using Cons.IH [of "process_file E tok sid k f s" "Suc k"] by simp
qed

lemma run_steps_extract_calls:
  assumes "\<forall>e. Ev e \<in> set steps \<longrightarrow> extract_calls [e] = []"
  shows "\<exists>new. trace (snd (run_steps jid steps s)) = trace (snd s) @ new \<and> extract_calls new = []"
  using assms
proof (induction jid steps s rule: run_steps.induct)
  case (1 jid s)
  then show ?case by simp
next
  case (2 jid u steps s)
  obtain rs a where s: "s = (rs, a)" by (cases s)
  have "\<exists>new. trace (snd (updateResult jid u s)) = trace (snd s) @ new \<and> extract_calls new = []"
    by (simp add: s updateResult_eq)
  then obtain n1 where n1: "trace (snd (updateResult jid u s)) = trace (snd s) @ n1" "extract_calls n1 = []"
    by blast
  from "2.IH" "2.prems" obtain n2
    where n2: "trace (snd (run_steps jid steps (updateResult jid u s))) = trace (snd (updateResult jid u s)) @ n2"
      "extract_calls n2 = []"
    by auto
  from n1 n2 have "trace (snd (run_steps jid (Upd u # steps) s)) = trace (snd s) @ (n1 @ n2) \<and>
      extract_calls (n1 @ n2) = []"
    by simp
  then show ?case by blast
next
  case (3 jid e steps s)
  have e: "extract_calls [e] = []" using "3.prems" by simp
  from "3.IH" "3.prems" obtain n2
    where n2: "trace (snd (run_steps jid steps (fst s, call e (snd s)))) = trace (snd (fst s, call e (snd s))) @ n2"
      "extract_calls n2 = []"
    by auto
  from e have "extract_calls (e # n2) = extract_calls n2"
    by (cases e) simp_all
  with n2 have "trace (snd (run_steps jid (Ev e # steps) s)) = trace (snd s) @ ([e] @ n2) \<and>
      extract_calls ([e] @ n2) = []"
    by simp
  then show ?case by blast
qed

lemma process_file_trace:
  "\<exists>new. trace (snd (process_file E tok sid k file s)) = trace (snd s) @ new \<and> extract_calls new = [file]"
proof -
  obtain rs a where s: "s = (rs, a)" by (cases s)
  have "\<forall>e. Ev e \<in> set (job_steps E tok sid k file) \<longrightarrow> extract_calls [e] = []"
  proof (intro allI impI)
    fix e :: "'a event"
    assume "Ev e \<in> set (job_steps E tok sid k file)"
    then have "(\<exists>t. e = CallStructure t) \<or> (\<exists>d. e = CallPersist d tok sid)"
      by (rule job_steps_events)
    then show "extract_calls [e] = []" by auto
  qed
  then obtain new where new: "trace (snd (process_file E tok sid k file s)) =
      trace (snd (job_start E k file s)) @ new" "extract_calls new = []"
    unfolding process_file_steps using run_steps_extract_calls by blast
  then have "trace (snd (process_file E tok sid k file s)) =
      trace (snd s) @ ([SetProcessedReceipts (rs @ [initialResult E k file]), CallExtract file] @ new) \<and>
      extract_calls ([SetProcessedReceipts (rs @ [initialResult E k file]), CallExtract file] @ new) = [file]"
    by (simp add: s job_start_pair)
  then show ?thesis by blast
qed

lemma process_files_trace:
  "\<exists>new. trace (snd (process_files E tok sid k files s)) = trace (snd s) @ new \<and> extract_calls new = files"
proof (induction files arbitrary: k s)
  case Nil
  then show ?case by simp
next
  case (Cons f fs)
  obtain n1 where n1: "trace (snd (process_file E tok sid k f s)) = trace (snd s) @ n1"
      "extract_calls n1 = [f]"
    using process_file_trace by blast
  obtain n2 where n2: "trace (snd (process_files E tok sid (Suc k) fs (process_file E tok sid k f s))) =
      trace (snd (process_file E tok sid k f s)) @ n2" "extract_calls n2 = fs"
    using Cons.IH by blast
  from n1 n2 have "trace (snd (process_files E tok sid k (f # fs) s)) = trace (snd s) @ (n1 @ n2) \<and>
      extract_calls (n1 @ n2) = f # fs"
    by simp
  then show ?case by blast
qed

lemma process_files_ids:
  "map id' (fst (process_files E tok sid k files s)) =
     map id' (fst s) @ map (\<lambda>(i, f). id' (initialResult E i f)) (zip [k..<k + length files] files)"
proof (induction files arbitrary: k s)
  case Nil
  then show ?case by simp
next
  case (Cons f fs)
  have "[k..<k + length (f # fs)] = k # [Suc k..<Suc k + length fs]"
    by (subst upt_rec) simp
  then show ?case
    using Cons.IH [of "Suc k" "process_file E tok sid k f s"]
    by (simp add: process_file_ids)
qed

lemma run_steps_sync:
  assumes "processedReceipts (snd s) = fst s"
  shows "processedReceipts (snd (run_steps jid steps s)) = fst (run_steps jid steps s)"
  using assms
proof (induction jid steps s rule: run_steps.induct)
  case (2 jid u steps s)
  then show ?case by (cases s) (simp add: updateResult_eq)
qed simp_all

lemma process_file_sync:
  "processedReceipts (snd (process_file E tok sid k file s)) = fst (process_file E tok sid k file s)"
  unfolding process_file_steps
  by (rule run_steps_sync) (cases s, simp add: job_start_pair)

lemma process_files_sync:
  assumes "processedReceipts (snd s) = fst s"
  shows "processedReceipts (snd (process_files E tok sid k files s)) = fst (process_files E tok sid k files s)"
  using assms by (induction files arbitrary: k s) (simp_all add: process_file_sync)

lemma one_job_in_flight_nth:
  assumes "one_job_in_flight snap" "Suc k < length snap"
  shows "settled snap (id' (snap ! k))"
proof -
  from assms(2) have k: "k < length (butlast (map id' snap))" by simp
  with assms(1) have "settled snap (butlast (map id' snap) ! k)"
    by (simp add: one_job_in_flight_def list_all_length)
  with k assms(2) show ?thesis by (simp add: nth_butlast)
qed

lemma job_record_distinct:
  assumes "distinct (map id' rs)" "k < length rs"
  shows "job_record (id' (rs ! k)) rs = Some (rs ! k)"
proof -
  have "\<forall>j<k. id' (rs ! j) \<noteq> id' (rs ! k)"
  proof (intro allI impI)
    fix j assume "j < k"
    with assms have "map id' rs ! j \<noteq> map id' rs ! k"
      using nth_eq_iff_index_eq [of "map id' rs" j k] by simp
    with \<open>j < k\<close> assms(2) show "id' (rs ! j) \<noteq> id' (rs ! k)" by simp
  qed
  with assms(2) have "findIndex (\<lambda>r. id' r = id' (rs ! k)) rs = Some k"
    using findIndex_Some_iff [of "\<lambda>r. id' r = id' (rs ! k)" rs k] by blast
  then show ?thesis by (simp add: job_record_def)
qed

lemmas fixture_defs = app0_def fileA_def fileB_def expenseA_def world_AB_def
  world_persist_fails_def world_empty_text_def world_blank_text_def receipt_a_def receipt_b_def
  fileA2_def world_same_tick_def world_same_tick_refused_def world_same_tick_empty_def
  upstream_null_def world_null_result_def page_idle_def clicks_while_busy_def
  receipt_json_def upstream_receipt_def upstream_items_only_def upstream_prose_def
  app0_json_def world_items_only_def

lemmas json_defs = JSON_parse_def ascii_def lex_idle_def is_digit_def is_lower_def is_number_char_def
  finish_number_def finish_word_def valid_number_def after_token_def begin_value_def end_array_def
  end_object_def read_key_def hex_value_def unescape_def trim_def is_js_space_def
  generateExpenseJson_def structuring_failure_def member_def is_string_def is_number_def
  spec_item_shape_def spec_expense_shape_def as_data_def resolved_data_def

lemma batch_events_valid:
  assumes "imageFiles \<noteq> []" "tok \<noteq> []" "sid \<noteq> []"
  shows "batch_events E imageFiles tok sid a =
           drop (length (trace a)) (trace (snd (process_files E tok sid 0 imageFiles (batch_start a))))
           @ [SetIsProcessing False]"
proof -
  obtain new where "trace (snd (process_files E tok sid 0 imageFiles (batch_start a))) =
      trace (snd (batch_start a)) @ new"
    using process_files_trace by blast
  then have "length (trace a) \<le> length (trace (snd (process_files E tok sid 0 imageFiles (batch_start a))))"
    by (simp add: batch_start_def)
  with assms show ?thesis
    by (simp add: batch_events_def handleProcessReceipts_def)
qed

lemma persist_calls_append [simp]: "persist_calls (xs @ ys) = persist_calls xs @ persist_calls ys"
  by (induction xs rule: persist_calls.induct) simp_all

lemma job_record_pushed:
  "\<exists>r. job_record (id' (initialResult E k file)) (rs @ [initialResult E k file]) = Some r \<and>
       (id' (initialResult E k file) \<notin> id' ` set rs \<longrightarrow> r = initialResult E k file)"
  by (cases "job_record (id' (initialResult E k file)) rs")
    (simp_all add: job_record_append job_record_None_iff [symmetric])

lemma has_data_results_after:
  assumes "id_upd u = None" "data_upd u = None" "has_data jid d rs"
  shows "has_data jid d (results_after jid u rs)"
  using assms
  by (auto simp: has_data_def job_record_results_after_same spread_def split: option.splits)

lemma has_data_written:
  assumes "id_upd u = None" "data_upd u = Some d" "jid \<in> id' ` set rs"
  shows "has_data jid d (results_after jid u rs)"
proof -
  from assms(3) obtain r where "job_record jid rs = Some r"
    using job_record_None_iff [of jid rs] by auto
  with assms show ?thesis
    by (simp add: has_data_def job_record_results_after_same spread_def)
qed

lemma process_file_structured:
  assumes "await_extractTextFromImage E k file = Inr t" "t \<noteq> []"
    and "await_generateExpenseJson E k t = Inr d"
  shows "\<exists>R1 R2 R3 R4.
     fst (process_file E tok sid k file (rs, a)) = R4 \<and>
     processedReceipts (snd (process_file E tok sid k file (rs, a))) = R4 \<and>
     trace (snd (process_file E tok sid k file (rs, a))) =
       trace a @ [SetProcessedReceipts (rs @ [initialResult E k file]), CallExtract file,
                  SetProcessedReceipts R1, CallStructure t,
                  SetProcessedReceipts R2, SetProcessedReceipts R3,
                  CallPersist d tok sid, SetProcessedReceipts R4] \<and>
     has_data (id' (initialResult E k file)) d R2 \<and>
     has_data (id' (initialResult E k file)) d R3 \<and>
     has_data (id' (initialResult E k file)) d R4 \<and>
     (\<forall>e. await_saveToGoogleSheets E k d tok sid = Inl e \<longrightarrow>
        (\<exists>r. job_record (id' (initialResult E k file)) R4 = Some r \<and> data r = d \<and>
           saveStatus r = failed \<and> error r = Some (caught_message e) \<and> status r = ''Failed''))"
proof -
  let ?jid = "id' (initialResult E k file)"
  let ?rs0 = "rs @ [initialResult E k file]"
  let ?u1 = "no_update\<lparr>status_upd := Some ''Structuring data...''\<rparr> :: 'a Partial_ProcessedReceipt"
  let ?u2 = "no_update\<lparr>status_upd := Some ''Data extracted'', data_upd := Some d\<rparr>"
  let ?u3 = "no_update\<lparr>status_upd := Some ''Saving to Google Sheets...''\<rparr> :: 'a Partial_ProcessedReceipt"
  let ?R1 = "results_after ?jid ?u1 ?rs0"
  let ?R2 = "results_after ?jid ?u2 ?R1"
  let ?R3 = "results_after ?jid ?u3 ?R2"
  let ?p = "await_saveToGoogleSheets E k d tok sid"
  obtain u4 :: "'a Partial_ProcessedReceipt" where u4: "steps_after_persist ?p = [Upd u4]" "id_upd u4 = None"
    using steps_after_persist_last by blast
  have u4_data: "data_upd u4 = None"
    using u4(1) by (cases ?p) (auto simp: steps_after_persist_def upd_failed_def)
  let ?R4 = "results_after ?jid u4 ?R3"
  have steps: "job_steps E tok sid k file =
      [Upd ?u1, Ev (CallStructure t), Upd ?u2, Upd ?u3, Ev (CallPersist d tok sid), Upd u4]"
    using assms u4(1) by (simp add: job_steps_def steps_after_structure_def)
  have p0: "?jid \<in> id' ` set ?rs0" by simp
  have p1: "?jid \<in> id' ` set ?R1" using p0 by simp
  have p2: "?jid \<in> id' ` set ?R2" using p1 by simp
  have p3: "?jid \<in> id' ` set ?R3" using p2 by simp
  have run: "process_file E tok sid k file (rs, a) =
      (?R4, setProcessedReceipts ?R4 (call (CallPersist d tok sid) (setProcessedReceipts ?R3
          (setProcessedReceipts ?R2 (call (CallStructure t) (setProcessedReceipts ?R1
             (call (CallExtract file) (setProcessedReceipts ?rs0 a))))))))"
    using p0 p1 p2 p3 u4(2)
    by (simp add: process_file_steps steps job_start_pair updateResult_eq)
  have d2: "has_data ?jid d ?R2" using p1 by (intro has_data_written) simp_all
  have d3: "has_data ?jid d ?R3"
    using has_data_results_after [OF _ _ d2, of ?u3] by simp
  have d4: "has_data ?jid d ?R4"
    using u4(2) u4_data d3 by (rule has_data_results_after)
  have fail: "\<exists>r. job_record ?jid ?R4 = Some r \<and> data r = d \<and>
           saveStatus r = failed \<and> error r = Some (caught_message e) \<and> status r = ''Failed''"
    if e: "?p = Inl e" for e
  proof -
    from e u4(1) have u4_eq: "u4 = upd_failed e" by (simp add: steps_after_persist_def)
    from d3 obtain r3 where r3: "job_record ?jid ?R3 = Some r3" "data r3 = d"
      by (auto simp: has_data_def split: option.splits)
    have "job_record ?jid ?R4 = map_option (\<lambda>r. spread r u4) (job_record ?jid ?R3)"
      using u4(2) by (rule job_record_results_after_same)
    with r3(1) have "job_record ?jid ?R4 = Some (spread r3 (upd_failed e))"
      by (simp add: u4_eq)
    with r3 show ?thesis by (simp add: spread_def upd_failed_def)
  qed
  show ?thesis
    apply (rule exI [of _ ?R1], rule exI [of _ ?R2], rule exI [of _ ?R3], rule exI [of _ ?R4])
    using d2 d3 d4 fail by (simp add: run)
qed

section \<open>Jobs with fresh ids\<close>

lemma results_after_fresh:
  assumes "jid \<notin> id' ` set rs" "id' r = jid"
  shows "results_after jid u (rs @ [r]) = rs @ [spread r u]"
proof -
  have "\<forall>j<length rs. id' (rs ! j) \<noteq> jid"
    using assms(1) by (metis image_eqI nth_mem)
  with assms(2) have "length rs < length (rs @ [r]) \<and> id' ((rs @ [r]) ! length rs) = jid \<and>
      (\<forall>j<length rs. id' ((rs @ [r]) ! j) \<noteq> jid)"
    by (simp add: nth_append)
  then have "findIndex (\<lambda>x. id' x = jid) (rs @ [r]) = Some (length rs)"
    using findIndex_Some_iff [of "\<lambda>x. id' x = jid" "rs @ [r]" "length rs"] by blast
  then show ?thesis by (simp add: results_after_found)
qed

lemma run_steps_fresh:
  assumes "jid \<notin> id' ` set rs" "id' r = jid"
    and "\<forall>u. Upd u \<in> set steps \<longrightarrow> id_upd u = None"
    and "\<forall>e. Ev e \<in> set steps \<longrightarrow> snapshots [e] = []"
  shows "fst (run_steps jid steps (rs @ [r], a)) = rs @ [last (r # own_states r steps)] \<and>
         snapshots (trace (snd (run_steps jid steps (rs @ [r], a)))) =
           snapshots (trace a) @ map (\<lambda>x. rs @ [x]) (own_states r steps)"
  using assms
proof (induction steps arbitrary: r a)
  case Nil
  then show ?case by simp
next
  case (Cons st steps)
  show ?case
  proof (cases st)
    case (Upd u)
    with Cons.prems have u: "id_upd u = None" by simp
    with Cons.prems have id: "id' (spread r u) = jid" by (simp add: spread_def)
    have step: "updateResult jid u (rs @ [r], a) =
        (rs @ [spread r u], setProcessedReceipts (rs @ [spread r u]) a)"
      using Cons.prems(1,2) by (simp add: updateResult_eq results_after_fresh)
    have "fst (run_steps jid steps (rs @ [spread r u], setProcessedReceipts (rs @ [spread r u]) a)) =
           rs @ [last (spread r u # own_states (spread r u) steps)] \<and>
         snapshots (trace (snd (run_steps jid steps (rs @ [spread r u], setProcessedReceipts (rs @ [spread r u]) a)))) =
           snapshots (trace (setProcessedReceipts (rs @ [spread r u]) a)) @
             map (\<lambda>x. rs @ [x]) (own_states (spread r u) steps)"
      using Cons.prems(1,3,4) id by (intro Cons.IH) simp_all
    with Upd step show ?thesis by simp
  next
    case (Ev e)
    with Cons.prems have e: "snapshots [e] = []" by simp
    have "fst (run_steps jid steps (rs @ [r], call e a)) = rs @ [last (r # own_states r steps)] \<and>
         snapshots (trace (snd (run_steps jid steps (rs @ [r], call e a)))) =
           snapshots (trace (call e a)) @ map (\<lambda>x. rs @ [x]) (own_states r steps)"
      using Cons.prems by (intro Cons.IH) simp_all
    with Ev e show ?thesis by simp
  qed
qed

lemma job_own_states:
  fixes E :: "'d env"
  defines "P \<equiv> (\<lambda>x y :: 'd ProcessedReceipt. phase_rank (status x) \<le> phase_rank (status y))"
  assumes "await_saveToGoogleSheets E k None tok sid \<noteq> Inr ()"
  shows "list_all record_ok (initialResult E k file # own_states (initialResult E k file) (job_steps E tok sid k file)) \<and>
         successively P
           (initialResult E k file # own_states (initialResult E k file) (job_steps E tok sid k file)) \<and>
         list_all (\<lambda>x. id' x = id' (initialResult E k file))
           (initialResult E k file # own_states (initialResult E k file) (job_steps E tok sid k file))"
  using assms(2) unfolding P_def
  by (auto simp: job_steps_def steps_after_structure_def steps_after_persist_def upd_failed_def
      initialResult_def spread_def record_ok_def phase_rank_def caught_message_def
      split: sum.splits option.splits)
    (metis not_None_eq)

lemma process_file_fresh:
  assumes "id' (initialResult E k file) \<notin> id' ` set rs"
  shows "fst (process_file E tok sid k file (rs, a)) =
           rs @ [last (initialResult E k file # own_states (initialResult E k file) (job_steps E tok sid k file))] \<and>
         snapshots (trace (snd (process_file E tok sid k file (rs, a)))) =
           snapshots (trace a) @
             map (\<lambda>x. rs @ [x])
               (initialResult E k file # own_states (initialResult E k file) (job_steps E tok sid k file))"
proof -
  let ?r0 = "initialResult E k file"
  let ?a1 = "call (CallExtract file) (setProcessedReceipts (rs @ [?r0]) a)"
  have g1: "\<forall>u. Upd u \<in> set (job_steps E tok sid k file) \<longrightarrow> id_upd u = None"
    using job_steps_good by blast
  have g2: "\<forall>e. Ev e \<in> set (job_steps E tok sid k file) \<longrightarrow> snapshots [e] = []"
  proof (intro allI impI)
    fix e :: "'a event"
    assume "Ev e \<in> set (job_steps E tok sid k file)"
    then have "(\<exists>t. e = CallStructure t) \<or> (\<exists>d. e = CallPersist d tok sid)"
      by (rule job_steps_events)
    then show "snapshots [e] = []" by auto
  qed
  have "fst (run_steps (id' ?r0) (job_steps E tok sid k file) (rs @ [?r0], ?a1)) =
          rs @ [last (?r0 # own_states ?r0 (job_steps E tok sid k file))] \<and>
        snapshots (trace (snd (run_steps (id' ?r0) (job_steps E tok sid k file) (rs @ [?r0], ?a1)))) =
          snapshots (trace ?a1) @ map (\<lambda>x. rs @ [x]) (own_states ?r0 (job_steps E tok sid k file))"
    using assms _ g1 g2 by (rule run_steps_fresh) simp
  then show ?thesis
    by (simp add: process_file_steps job_start_pair)
qed

lemma advances_push: "advances rs (rs @ [r])"
  by (simp add: advances_def nth_append)

lemma advances_last:
  assumes "id' y = id' x" "phase_rank (status x) \<le> phase_rank (status y)"
  shows "advances (rs @ [x]) (rs @ [y])"
  using assms by (auto simp: advances_def nth_append)

lemma successively_with_invariant:
  assumes "successively P xs" "list_all Q xs"
  shows "successively (\<lambda>x y. P x y \<and> Q x \<and> Q y) xs"
  using assms by (induction P xs rule: successively.induct) simp_all

lemma process_file_ok:
  assumes null: "await_saveToGoogleSheets E k None tok sid \<noteq> Inr ()"
    and fresh: "id' (initialResult E k file) \<notin> id' ` set rs"
    and old: "snapshots (trace a) = old @ cur"
    and cur: "cur \<noteq> []" "last cur = rs"
    and ok: "\<forall>snap\<in>set cur. list_all record_ok snap"
    and adv: "successively advances cur"
  shows "\<exists>cur'. snapshots (trace (snd (process_file E tok sid k file (rs, a)))) = old @ cur' \<and>
           cur' \<noteq> [] \<and> last cur' = fst (process_file E tok sid k file (rs, a)) \<and>
           (\<forall>snap\<in>set cur'. list_all record_ok snap) \<and> successively advances cur'"
proof -
  let ?r0 = "initialResult E k file"
  let ?xs = "?r0 # own_states ?r0 (job_steps E tok sid k file)"
  let ?ys = "map (\<lambda>x. rs @ [x]) ?xs"
  let ?P = "\<lambda>x y :: 'a ProcessedReceipt. phase_rank (status x) \<le> phase_rank (status y)"
  let ?Q = "\<lambda>x :: 'a ProcessedReceipt. id' x = id' ?r0"
  have own: "list_all record_ok ?xs" "successively ?P ?xs" "list_all ?Q ?xs"
    using job_own_states [OF null, of "file"] by simp_all
  have pf: "fst (process_file E tok sid k file (rs, a)) = rs @ [last ?xs]"
    "snapshots (trace (snd (process_file E tok sid k file (rs, a)))) = snapshots (trace a) @ ?ys"
    using process_file_fresh [OF fresh, of tok sid a] by simp_all
  from cur have "rs \<in> set cur" using last_in_set by metis
  with ok have rs_ok: "list_all record_ok rs" by blast
  have c1: "snapshots (trace (snd (process_file E tok sid k file (rs, a)))) = old @ (cur @ ?ys)"
    by (simp add: pf(2) old)
  have c2: "cur @ ?ys \<noteq> []" by simp
  have c3: "last (cur @ ?ys) = fst (process_file E tok sid k file (rs, a))"
    by (simp add: pf(1) last_map)
  have c4: "\<forall>snap\<in>set (cur @ ?ys). list_all record_ok snap"
    using ok rs_ok own(1) by (auto simp: list_all_iff)
  have "successively (\<lambda>x y. ?P x y \<and> ?Q x \<and> ?Q y) ?xs"
    using own(2,3) by (rule successively_with_invariant)
  then have "successively (\<lambda>x y. advances (rs @ [x]) (rs @ [y])) ?xs"
    by (rule successively_mono) (simp add: advances_last)
  then have s2: "successively advances ?ys"
    by (simp only: successively_map)
  have s3: "advances (last cur) (hd ?ys)"
    by (simp add: cur(2) advances_push)
  have c5: "successively advances (cur @ ?ys)"
    using adv s2 s3 by (simp only: successively_append_iff) simp
  from c1 c2 c3 c4 c5 show ?thesis by blast
qed

lemma process_files_ok:
  assumes null: "\<forall>k. await_saveToGoogleSheets E k None tok sid \<noteq> Inr ()"
    and rest: "distinct (map id' rs @ map (\<lambda>(i, f). id' (initialResult E i f)) (zip [k..<k + length files] files))"
      "snapshots (trace a) = old @ cur"
      "cur \<noteq> []" "last cur = rs"
      "\<forall>snap\<in>set cur. list_all record_ok snap"
      "successively advances cur"
  shows "\<exists>cur'. snapshots (trace (snd (process_files E tok sid k files (rs, a)))) = old @ cur' \<and>
           cur' \<noteq> [] \<and> last cur' = fst (process_files E tok sid k files (rs, a)) \<and>
           (\<forall>snap\<in>set cur'. list_all record_ok snap) \<and> successively advances cur'"
  using rest
proof (induction files arbitrary: k rs a cur)
  case Nil
  then show ?case by auto
next
  case (Cons f fs)
  let ?pf = "process_file E tok sid k f (rs, a)"
  have upt: "[k..<k + length (f # fs)] = k # [Suc k..<Suc k + length fs]"
    by (subst upt_rec) simp
  from Cons.prems(1) have d0: "distinct (map id' rs @
      map (\<lambda>(i, f). id' (initialResult E i f)) (zip (k # [Suc k..<Suc k + length fs]) (f # fs)))"
    by (simp only: upt)
  then have fresh: "id' (initialResult E k f) \<notin> id' ` set rs"
    by auto
  obtain cur1 where cur1: "snapshots (trace (snd ?pf)) = old @ cur1" "cur1 \<noteq> []"
    "last cur1 = fst ?pf" "\<forall>snap\<in>set cur1. list_all record_ok snap" "successively advances cur1"
    using process_file_ok [OF null [rule_format] fresh Cons.prems(2,3,4,5,6)] by blast
  have ids: "map id' (fst ?pf) = map id' rs @ [id' (initialResult E k f)]"
    using process_file_ids [of E tok sid k f "(rs, a)"] by simp
  have d: "distinct (map id' (fst ?pf) @
      map (\<lambda>(i, f). id' (initialResult E i f)) (zip [Suc k..<Suc k + length fs] fs))"
    using d0 by (simp add: ids)
  have "\<exists>cur'. snapshots (trace (snd (process_files E tok sid (Suc k) fs (fst ?pf, snd ?pf)))) = old @ cur' \<and>
           cur' \<noteq> [] \<and> last cur' = fst (process_files E tok sid (Suc k) fs (fst ?pf, snd ?pf)) \<and>
           (\<forall>snap\<in>set cur'. list_all record_ok snap) \<and> successively advances cur'"
    using d cur1 by (intro Cons.IH)
  then show ?case by simp
qed

text \<open>
  The record invariants hold in every snapshot of a batch whose records end up with
  pairwise distinct ids, in a world where a persistence call made with \<^verbatim>\<open>null\<close> is
  rejected (as the destructuring in \<^verbatim>\<open>saveToGoogleSheets\<close> does): a record with \<open>saveStatus = success\<close> has data and no error, a
  record with \<open>saveStatus = failed\<close> has an error, and from one snapshot to the next
  every record stays in place under its id with a status that is no earlier in the phase
  sequence.
\<close>

lemma records_ok_when_ids_distinct:
  assumes "imageFiles \<noteq> []" "googleAccessToken \<noteq> []" "spreadsheetId \<noteq> []"
    and "distinct (map id' (processedReceipts
           (handleProcessReceipts E imageFiles googleAccessToken spreadsheetId a)))"
    and null: "\<forall>k. await_saveToGoogleSheets E k None googleAccessToken spreadsheetId \<noteq> Inr ()"
  shows "(\<forall>snap\<in>set (snapshots (batch_events E imageFiles googleAccessToken spreadsheetId a)).
            list_all record_ok snap) \<and>
         successively advances (snapshots (batch_events E imageFiles googleAccessToken spreadsheetId a))"
proof -
  let ?init = "batch_start a"
  let ?s = "process_files E googleAccessToken spreadsheetId 0 imageFiles ?init"
  let ?n = "length (trace a)"
  have sync: "processedReceipts (snd ?s) = fst ?s"
    by (rule process_files_sync) (simp add: batch_start_def)
  have final: "processedReceipts (handleProcessReceipts E imageFiles googleAccessToken spreadsheetId a) = fst ?s"
    using assms(1,2,3) sync by (simp add: handleProcessReceipts_def)
  have ids: "map id' (fst ?s) =
      map (\<lambda>(i, f). id' (initialResult E i f)) (zip [0..<0 + length imageFiles] imageFiles)"
    by (simp only: process_files_ids) (simp add: batch_start_def)
  have d: "distinct (map id' ([] :: 'a ProcessedReceipt list) @
      map (\<lambda>(i, f). id' (initialResult E i f)) (zip [0..<0 + length imageFiles] imageFiles))"
    using assms(4) by (simp only: final ids) simp
  have start: "snapshots (trace (setProcessedReceipts [] (setIsProcessing True a))) = snapshots (trace a) @ [[]]"
    by simp
  have "\<exists>cur'. snapshots (trace (snd (process_files E googleAccessToken spreadsheetId 0 imageFiles
            ([], setProcessedReceipts [] (setIsProcessing True a))))) = snapshots (trace a) @ cur' \<and>
           cur' \<noteq> [] \<and> last cur' = fst (process_files E googleAccessToken spreadsheetId 0 imageFiles
            ([], setProcessedReceipts [] (setIsProcessing True a))) \<and>
           (\<forall>snap\<in>set cur'. list_all record_ok snap) \<and> successively advances cur'"
    using null d start by (rule process_files_ok) (simp_all add: advances_def)
  then obtain cur' where cur': "snapshots (trace (snd ?s)) = snapshots (trace a) @ cur'"
    "\<forall>snap\<in>set cur'. list_all record_ok snap" "successively advances cur'"
    by (auto simp: batch_start_def)
  obtain new where new: "trace (snd ?s) = trace (snd ?init) @ new"
    using process_files_trace [of E googleAccessToken spreadsheetId 0 imageFiles ?init]
    by (elim exE conjE)
  then have tr: "trace (snd ?s) = trace a @ drop ?n (trace (snd ?s))"
    by (simp add: batch_start_def)
  have "snapshots (trace (snd ?s)) = snapshots (trace a) @ snapshots (drop ?n (trace (snd ?s)))"
    by (subst tr) simp
  with cur'(1) have "snapshots (drop ?n (trace (snd ?s))) = cur'" by simp
  then have "snapshots (batch_events E imageFiles googleAccessToken spreadsheetId a) = cur'"
    using assms(1,2,3) by (simp add: batch_events_valid)
  with cur'(2,3) show ?thesis by simp
qed

lemma run_steps_snapshot_ids:
  assumes "\<forall>u. Upd u \<in> set steps \<longrightarrow> id_upd u = None"
    and "\<forall>e. Ev e \<in> set steps \<longrightarrow> snapshots [e] = []"
    and "n \<le> length (trace (snd s))"
    and "map id' (fst s) = ids"
    and "\<forall>snap\<in>set (snapshots (drop n (trace (snd s)))). map id' snap = ids"
  shows "\<forall>snap\<in>set (snapshots (drop n (trace (snd (run_steps jid steps s))))). map id' snap = ids"
  using assms
proof (induction jid steps s rule: run_steps.induct)
  case (1 jid s)
  then show ?case by simp
next
  case (2 jid u steps s)
  obtain rs a where s: "s = (rs, a)" by (cases s)
  have u: "id_upd u = None" using "2.prems"(1) by simp
  have "n \<le> length (trace (snd (updateResult jid u s))) \<and>
        map id' (fst (updateResult jid u s)) = ids \<and>
        (\<forall>snap\<in>set (snapshots (drop n (trace (snd (updateResult jid u s))))). map id' snap = ids)"
    using "2.prems"(3,4,5) u by (simp add: s updateResult_eq)
  with "2.IH" "2.prems"(1,2) show ?case by simp
next
  case (3 jid e steps s)
  have "snapshots [e] = []" using "3.prems"(2) by simp
  with "3.prems"(3,4,5)
  have "n \<le> length (trace (snd (fst s, call e (snd s)))) \<and>
        map id' (fst (fst s, call e (snd s))) = ids \<and>
        (\<forall>snap\<in>set (snapshots (drop n (trace (snd (fst s, call e (snd s)))))). map id' snap = ids)"
    by simp
  with "3.IH" "3.prems"(1,2) show ?case by simp
qed

lemma job_snapshots_ids:
  "\<forall>snap\<in>set (snapshots (job_events E tok sid k file (rs, a))).
     map id' snap = map id' rs @ [id' (initialResult E k file)]"
proof -
  have g1: "\<forall>u. Upd u \<in> set (job_steps E tok sid k file) \<longrightarrow> id_upd u = None"
    using job_steps_good by blast
  have g2: "\<forall>e. Ev e \<in> set (job_steps E tok sid k file) \<longrightarrow> snapshots [e] = []"
  proof (intro allI impI)
    fix e :: "'a event"
    assume "Ev e \<in> set (job_steps E tok sid k file)"
    then have "(\<exists>t. e = CallStructure t) \<or> (\<exists>d. e = CallPersist d tok sid)"
      by (rule job_steps_events)
    then show "snapshots [e] = []" by auto
  qed
  have "\<forall>snap\<in>set (snapshots (drop (length (trace a))
          (trace (snd (run_steps (id' (initialResult E k file)) (job_steps E tok sid k file)
             (job_start E k file (rs, a))))))).
     map id' snap = map id' rs @ [id' (initialResult E k file)]"
    using g1 g2 by (rule run_steps_snapshot_ids) (simp_all add: job_start_pair)
  then show ?thesis
    by (simp add: job_events_def process_file_steps)
qed

lemma job_record_own:
  assumes "jid \<notin> id' ` set rs" "map id' snap = map id' rs @ [jid]"
  shows "job_record jid snap = Some (snap ! length rs)"
proof -
  have len: "length snap = Suc (length rs)"
    using assms(2) by (metis length_append_singleton length_map)
  have nth: "\<And>j. j < length snap \<Longrightarrow> id' (snap ! j) = (map id' rs @ [jid]) ! j"
    using assms(2) by (metis nth_map)
  have "\<forall>j<length rs. id' (rs ! j) \<noteq> jid"
    using assms(1) by (metis image_eqI nth_mem)
  with nth len have "length rs < length snap \<and> id' (snap ! length rs) = jid \<and>
      (\<forall>j<length rs. id' (snap ! j) \<noteq> jid)"
    by (simp add: nth_append)
  then have "findIndex (\<lambda>x. id' x = jid) snap = Some (length rs)"
    using findIndex_Some_iff [of "\<lambda>x. id' x = jid" snap "length rs"] by blast
  then show ?thesis by (simp add: job_record_def)
qed

lemma job_snapshots_own_record:
  assumes "id' (initialResult E k file) \<notin> id' ` set rs"
  shows "\<forall>snap\<in>set (snapshots (job_events E tok sid k file (rs, a))).
     job_record (id' (initialResult E k file)) snap = Some (snap ! length rs)"
  using job_snapshots_ids [of E tok sid k "file" rs a] assms
  by (auto intro: job_record_own)

section \<open>The batch read by id\<close>

text \<open>
  Read by id, the batch is sequential whatever the ids are: in every snapshot every job
  but the one created last has reached a terminal state in the record the store resolves
  for its id, which is its own record whenever the ids of the snapshot are pairwise
  distinct. The extraction call is issued for every input file, in input order, and at
  the end there is one record per file.
\<close>

lemma sequential_by_id:
  assumes "imageFiles \<noteq> []" "googleAccessToken \<noteq> []" "spreadsheetId \<noteq> []"
  shows "(\<forall>snap\<in>set (snapshots (batch_events E imageFiles googleAccessToken spreadsheetId a)).
            \<forall>k. Suc k < length snap \<longrightarrow>
              settled snap (id' (snap ! k)) \<and>
              (distinct (map id' snap) \<longrightarrow> saveStatus (snap ! k) \<noteq> pending)) \<and>
         extract_calls (batch_events E imageFiles googleAccessToken spreadsheetId a) = imageFiles \<and>
         length (processedReceipts (handleProcessReceipts E imageFiles googleAccessToken spreadsheetId a))
           = length imageFiles \<and>
         list_all (settled (processedReceipts (handleProcessReceipts E imageFiles googleAccessToken spreadsheetId a)))
           (map id' (processedReceipts (handleProcessReceipts E imageFiles googleAccessToken spreadsheetId a)))"
proof -
  let ?init = "batch_start a"
  let ?s = "process_files E googleAccessToken spreadsheetId 0 imageFiles ?init"
  let ?n = "length (trace a)"
  have ev: "batch_events E imageFiles googleAccessToken spreadsheetId a =
      drop ?n (trace (snd ?s)) @ [SetIsProcessing False]"
    using assms by (rule batch_events_valid)
  have "one_job_in_flight ([] :: 'a ProcessedReceipt list)"
    by (simp add: one_job_in_flight_def)
  then have inv: "?n \<le> length (trace (snd ?s)) \<and>
      list_all (settled (fst ?s)) (map id' (fst ?s)) \<and>
      (\<forall>snap\<in>set (snapshots (drop ?n (trace (snd ?s)))). one_job_in_flight snap)"
    by (intro process_files_in_flight) (simp_all add: batch_start_def)
  have sync: "processedReceipts (snd ?s) = fst ?s"
    by (rule process_files_sync) (simp add: batch_start_def)
  have final: "processedReceipts (handleProcessReceipts E imageFiles googleAccessToken spreadsheetId a) = fst ?s"
    using assms sync by (simp add: handleProcessReceipts_def)
  have c1: "\<forall>snap\<in>set (snapshots (batch_events E imageFiles googleAccessToken spreadsheetId a)).
            \<forall>k. Suc k < length snap \<longrightarrow>
              settled snap (id' (snap ! k)) \<and>
              (distinct (map id' snap) \<longrightarrow> saveStatus (snap ! k) \<noteq> pending)"
  proof (intro ballI allI impI)
    fix snap k
    assume snap: "snap \<in> set (snapshots (batch_events E imageFiles googleAccessToken spreadsheetId a))"
      and k: "Suc k < length snap"
    from snap inv have "one_job_in_flight snap" by (simp add: ev)
    then have st: "settled snap (id' (snap ! k))" using k by (rule one_job_in_flight_nth)
    moreover have "saveStatus (snap ! k) \<noteq> pending" if "distinct (map id' snap)"
    proof -
      from that k have "job_record (id' (snap ! k)) snap = Some (snap ! k)"
        by (intro job_record_distinct) simp_all
      with st show ?thesis by (simp add: settled_def)
    qed
    ultimately show "settled snap (id' (snap ! k)) \<and>
        (distinct (map id' snap) \<longrightarrow> saveStatus (snap ! k) \<noteq> pending)"
      by blast
  qed
  obtain new where new: "trace (snd ?s) = trace (snd ?init) @ new" "extract_calls new = imageFiles"
    using process_files_trace [of E googleAccessToken spreadsheetId 0 imageFiles ?init]
    by (elim exE conjE)
  then have c2: "extract_calls (batch_events E imageFiles googleAccessToken spreadsheetId a) = imageFiles"
    by (simp add: ev batch_start_def)
  have "length (map id' (fst ?s)) = length imageFiles"
    by (simp only: process_files_ids) (simp add: batch_start_def)
  then have c3: "length (processedReceipts (handleProcessReceipts E imageFiles googleAccessToken spreadsheetId a))
      = length imageFiles"
    by (simp add: final)
  from inv have c4: "list_all (settled (processedReceipts (handleProcessReceipts E imageFiles googleAccessToken spreadsheetId a)))
      (map id' (processedReceipts (handleProcessReceipts E imageFiles googleAccessToken spreadsheetId a)))"
    by (simp add: final)
  from c1 c2 c3 c4 show ?thesis by blast
qed

section \<open>One job\<close>

text \<open>
  What one loop iteration does, read at the record that \<^verbatim>\<open>findIndex\<close> resolves for the
  job's id. Two jobs of one batch can carry the same id (section on colliding ids); the
  record resolved for the later one is then the earlier job's, and the later job's own
  record, the one it pushed at position \<open>length results\<close>, is never written again.
\<close>

lemma structured_job_events:
  assumes "await_extractTextFromImage E k file = Inr ocrText" "ocrText \<noteq> []"
    and "await_generateExpenseJson E k ocrText = Inr expenseData"
  shows "\<exists>before after.
           job_events E googleAccessToken spreadsheetId k file (results, a) =
             before @ CallPersist expenseData googleAccessToken spreadsheetId # after \<and>
           persist_calls before = [] \<and>
           snapshots before \<noteq> [] \<and>
           has_data (id' (initialResult E k file)) expenseData (last (snapshots before)) \<and>
           snapshots after \<noteq> [] \<and>
           (\<forall>snap\<in>set (snapshots after). has_data (id' (initialResult E k file)) expenseData snap) \<and>
           last (snapshots after) = fst (process_file E googleAccessToken spreadsheetId k file (results, a)) \<and>
           processedReceipts (snd (process_file E googleAccessToken spreadsheetId k file (results, a))) =
             fst (process_file E googleAccessToken spreadsheetId k file (results, a)) \<and>
           (\<forall>e. await_saveToGoogleSheets E k expenseData googleAccessToken spreadsheetId = Inl e \<longrightarrow>
              (\<exists>r. job_record (id' (initialResult E k file))
                      (fst (process_file E googleAccessToken spreadsheetId k file (results, a))) = Some r \<and>
                   data r = expenseData \<and> saveStatus r = failed \<and>
                   error r = Some (caught_message e) \<and> status r = ''Failed''))"
proof -
  let ?pf = "process_file E googleAccessToken spreadsheetId k file (results, a)"
  let ?jid = "id' (initialResult E k file)"
  obtain R1 R2 R3 R4 where R: "fst ?pf = R4" "processedReceipts (snd ?pf) = R4"
    "trace (snd ?pf) =
       trace a @ [SetProcessedReceipts (results @ [initialResult E k file]), CallExtract file,
                  SetProcessedReceipts R1, CallStructure ocrText,
                  SetProcessedReceipts R2, SetProcessedReceipts R3,
                  CallPersist expenseData googleAccessToken spreadsheetId, SetProcessedReceipts R4]"
    "has_data ?jid expenseData R3" "has_data ?jid expenseData R4"
    "\<forall>e. await_saveToGoogleSheets E k expenseData googleAccessToken spreadsheetId = Inl e \<longrightarrow>
        (\<exists>r. job_record ?jid R4 = Some r \<and> data r = expenseData \<and>
           saveStatus r = failed \<and> error r = Some (caught_message e) \<and> status r = ''Failed'')"
    using process_file_structured [OF assms, of googleAccessToken spreadsheetId results a] by blast
  let ?before = "[SetProcessedReceipts (results @ [initialResult E k file]), CallExtract file,
                  SetProcessedReceipts R1, CallStructure ocrText,
                  SetProcessedReceipts R2, SetProcessedReceipts R3]"
  let ?after = "[SetProcessedReceipts R4]"
  have "job_events E googleAccessToken spreadsheetId k file (results, a) =
      ?before @ CallPersist expenseData googleAccessToken spreadsheetId # ?after"
    by (simp add: job_events_def R(3))
  moreover have "persist_calls ?before = []" "snapshots ?before \<noteq> []"
    "has_data ?jid expenseData (last (snapshots ?before))" "snapshots ?after \<noteq> []"
    "\<forall>snap\<in>set (snapshots ?after). has_data ?jid expenseData snap"
    "last (snapshots ?after) = fst ?pf"
    using R(1,4,5) by simp_all
  ultimately show ?thesis using R(1,2,6) by blast
qed

lemma process_file_empty_text:
  assumes "await_extractTextFromImage E k file = Inr []"
  shows "\<exists>R1.
     fst (process_file E tok sid k file (rs, a)) = R1 \<and>
     processedReceipts (snd (process_file E tok sid k file (rs, a))) = R1 \<and>
     trace (snd (process_file E tok sid k file (rs, a))) =
       trace a @ [SetProcessedReceipts (rs @ [initialResult E k file]), CallExtract file,
                  SetProcessedReceipts R1] \<and>
     (\<exists>r. job_record (id' (initialResult E k file)) R1 = Some r \<and>
        status r = ''Failed'' \<and>
        error r = Some ''Could not extract any text. The image might be unclear.'' \<and>
        saveStatus r = failed \<and>
        (id' (initialResult E k file) \<notin> id' ` set rs \<longrightarrow> data r = None))"
proof -
  let ?jid = "id' (initialResult E k file)"
  let ?rs0 = "rs @ [initialResult E k file]"
  let ?u = "upd_failed (Thrown (Some ''Could not extract any text. The image might be unclear.''))
              :: 'a Partial_ProcessedReceipt"
  let ?R1 = "results_after ?jid ?u ?rs0"
  have steps: "job_steps E tok sid k file = [Upd ?u]"
    using assms by (simp add: job_steps_def)
  have run: "process_file E tok sid k file (rs, a) =
      (?R1, setProcessedReceipts ?R1 (call (CallExtract file) (setProcessedReceipts ?rs0 a)))"
    by (simp add: process_file_steps steps job_start_pair updateResult_eq)
  obtain r0 where r0: "job_record ?jid ?rs0 = Some r0"
    "?jid \<notin> id' ` set rs \<longrightarrow> r0 = initialResult E k file"
    using job_record_pushed by blast
  have "job_record ?jid ?R1 = map_option (\<lambda>r. spread r ?u) (job_record ?jid ?rs0)"
    by (rule job_record_results_after_same) (simp add: upd_failed_def)
  with r0(1) have r1: "job_record ?jid ?R1 = Some (spread r0 ?u)" by simp
  have "status (spread r0 ?u) = ''Failed'' \<and>
        error (spread r0 ?u) = Some ''Could not extract any text. The image might be unclear.'' \<and>
        saveStatus (spread r0 ?u) = failed \<and>
        (?jid \<notin> id' ` set rs \<longrightarrow> data (spread r0 ?u) = None)"
    using r0(2) by (simp add: spread_def upd_failed_def caught_message_def initialResult_def)
  with r1 show ?thesis
    by (intro exI [of _ ?R1]) (simp add: run)
qed

lemma empty_text_job_events:
  assumes "await_extractTextFromImage E k file = Inr []"
  shows "structure_calls (job_events E googleAccessToken spreadsheetId k file (results, a)) = [] \<and>
         persist_calls (job_events E googleAccessToken spreadsheetId k file (results, a)) = [] \<and>
         snapshots (job_events E googleAccessToken spreadsheetId k file (results, a)) =
           [results @ [initialResult E k file],
            fst (process_file E googleAccessToken spreadsheetId k file (results, a))] \<and>
         processedReceipts (snd (process_file E googleAccessToken spreadsheetId k file (results, a))) =
           fst (process_file E googleAccessToken spreadsheetId k file (results, a)) \<and>
         (\<exists>r. job_record (id' (initialResult E k file))
                 (fst (process_file E googleAccessToken spreadsheetId k file (results, a))) = Some r \<and>
              status r = ''Failed'' \<and>
              error r = Some ''Could not extract any text. The image might be unclear.'' \<and>
              saveStatus r = failed \<and>
              (id' (initialResult E k file) \<notin> id' ` set results \<longrightarrow> data r = None))"
proof -
  let ?pf = "process_file E googleAccessToken spreadsheetId k file (results, a)"
  obtain R1 where R: "fst ?pf = R1" "processedReceipts (snd ?pf) = R1"
    "trace (snd ?pf) =
       trace a @ [SetProcessedReceipts (results @ [initialResult E k file]), CallExtract file,
                  SetProcessedReceipts R1]"
    "\<exists>r. job_record (id' (initialResult E k file)) R1 = Some r \<and>
        status r = ''Failed'' \<and>
        error r = Some ''Could not extract any text. The image might be unclear.'' \<and>
        saveStatus r = failed \<and>
        (id' (initialResult E k file) \<notin> id' ` set results \<longrightarrow> data r = None)"
    using process_file_empty_text [OF assms, of googleAccessToken spreadsheetId results a] by blast
  then show ?thesis by (simp add: job_events_def)
qed


lemma results_after_collide:
  assumes "jid \<in> id' ` set rs"
  shows "results_after jid u (rs @ [r]) = results_after jid u rs @ [r]"
proof -
  from assms obtain i where i: "findIndex (\<lambda>x. id' x = jid) rs = Some i"
    using findIndex_id_None [of jid rs] by auto
  then have il: "i < length rs" by (simp add: findIndex_Some_iff)
  from i have "findIndex (\<lambda>x. id' x = jid) (rs @ [r]) = Some i"
    by (auto simp: findIndex_Some_iff nth_append)
  with i il show ?thesis
    by (simp add: results_after_found list_update_append1 nth_append)
qed

lemma run_steps_collide:
  assumes "jid \<in> id' ` set rs"
    and "\<forall>u. Upd u \<in> set steps \<longrightarrow> id_upd u = None"
  shows "\<exists>rs'. fst (run_steps jid steps (rs @ [r], a)) = rs' @ [r] \<and> length rs' = length rs"
  using assms
proof (induction steps arbitrary: rs a)
  case Nil
  then show ?case by simp
next
  case (Cons st steps)
  show ?case
  proof (cases st)
    case (Upd u)
    with Cons.prems have u: "id_upd u = None" by simp
    have step: "updateResult jid u (rs @ [r], a) =
        (results_after jid u rs @ [r], setProcessedReceipts (results_after jid u rs @ [r]) a)"
      using Cons.prems(1) by (simp add: updateResult_eq results_after_collide)
    have "jid \<in> id' ` set (results_after jid u rs)"
      using Cons.prems(1) u by simp
    then have "\<exists>rs'. fst (run_steps jid steps (results_after jid u rs @ [r],
          setProcessedReceipts (results_after jid u rs @ [r]) a)) = rs' @ [r] \<and>
        length rs' = length (results_after jid u rs)"
      using Cons.prems(2) by (intro Cons.IH) simp_all
    with Upd step show ?thesis by simp
  next
    case (Ev e)
    have "\<exists>rs'. fst (run_steps jid steps (rs @ [r], call e a)) = rs' @ [r] \<and> length rs' = length rs"
      using Cons.prems by (intro Cons.IH) simp_all
    with Ev show ?thesis by simp
  qed
qed

lemma process_file_collide:
  assumes "id' (initialResult E k file) \<in> id' ` set rs"
  shows "\<exists>rs'. fst (process_file E tok sid k file (rs, a)) = rs' @ [initialResult E k file] \<and>
           length rs' = length rs"
proof -
  have "\<forall>u. Upd u \<in> set (job_steps E tok sid k file) \<longrightarrow> id_upd u = None"
    using job_steps_good by blast
  with assms show ?thesis
    unfolding process_file_steps job_start_pair by (rule run_steps_collide)
qed

lemma own_record_position:
  "length (fst (process_file E tok sid k file (rs, a))) = Suc (length rs) \<and>
   id' (fst (process_file E tok sid k file (rs, a)) ! length rs) = id' (initialResult E k file)"
proof -
  let ?R = "fst (process_file E tok sid k file (rs, a))"
  have ids: "map id' ?R = map id' rs @ [id' (initialResult E k file)]"
    using process_file_ids [of E tok sid k "file" "(rs, a)"] by simp
  then have len: "length ?R = Suc (length rs)"
    by (metis length_append_singleton length_map)
  then have "id' (?R ! length rs) = map id' ?R ! length rs" by simp
  also have "\<dots> = id' (initialResult E k file)"
    by (simp only: ids) (simp add: nth_append)
  finally show ?thesis using len by simp
qed

lemma snapshot_own_record:
  assumes "id' (initialResult E k file) \<notin> id' ` set rs"
    and "snap \<in> set (snapshots (job_events E tok sid k file (rs, a)))"
  shows "job_record (id' (initialResult E k file)) snap = Some (snap ! length rs) \<and>
         length snap = Suc (length rs) \<and>
         id' (snap ! length rs) = id' (initialResult E k file)"
proof -
  have ids: "map id' snap = map id' rs @ [id' (initialResult E k file)]"
    using job_snapshots_ids assms(2) by blast
  then have len: "length snap = Suc (length rs)"
    by (metis length_append_singleton length_map)
  then have "id' (snap ! length rs) = map id' snap ! length rs" by simp
  also have "\<dots> = id' (initialResult E k file)"
    by (simp only: ids) (simp add: nth_append)
  finally have "id' (snap ! length rs) = id' (initialResult E k file)" .
  moreover have "job_record (id' (initialResult E k file)) snap = Some (snap ! length rs)"
    using assms(1) ids by (rule job_record_own)
  ultimately show ?thesis using len by simp
qed


text \<open>
  C1, as stated, fails in two ways. The structuring call can resolve to \<^verbatim>\<open>null\<close>: an
  upstream text \<^verbatim>\<open>null\<close> parses, nothing checks the result, and the job whose extraction
  and structuring succeeded ends, after the rejected persistence call, with
  \<^verbatim>\<open>data\<close> null. And when the job's id is already carried by an earlier record, its
  updates go to that record: the second job of the batch below gets through extraction
  and structuring and has its persistence call rejected, yet its own record ends as it
  was created, with \<^verbatim>\<open>data\<close> null, \<^verbatim>\<open>saveStatus\<close> pending and no error.
\<close>

theorem structured_data_not_kept_counterexample:
  "await_extractTextFromImage world_null_result 0 fileA = Inr ''CAFE LUNA 2x LATTE 12.50'' \<and>
   generateExpenseJson upstream_null ''CAFE LUNA 2x LATTE 12.50'' = Inr JNull \<and>
   await_generateExpenseJson world_null_result 0 ''CAFE LUNA 2x LATTE 12.50'' = Inr None \<and>
   persist_calls (batch_events world_null_result [fileA] ''ya29.token'' ''sheet-1'' app0_json) =
     [(None, ''ya29.token'', ''sheet-1'')] \<and>
   processedReceipts (handleProcessReceipts world_null_result [fileA] ''ya29.token'' ''sheet-1'' app0_json) =
     [\<lparr>id' = ''A.jpg1730534400000'', imagePreview = ''blob:A.jpg'', status = ''Failed'',
       data = None, saveStatus = failed, error = Some ''expenseData is null''\<rparr>] \<and>
   await_extractTextFromImage world_same_tick_refused 1 fileA2 = Inr ''CAFE LUNA 2x LATTE 12.50'' \<and>
   await_generateExpenseJson world_same_tick_refused 1 ''CAFE LUNA 2x LATTE 12.50'' = Inr (Some expenseA) \<and>
   await_saveToGoogleSheets world_same_tick_refused 1 (Some expenseA) ''ya29.token'' ''sheet-1'' =
     Inl (Thrown (Some ''The caller does not have permission'')) \<and>
   processedReceipts
       (handleProcessReceipts world_same_tick_refused [fileA, fileA2] ''ya29.token'' ''sheet-1'' app0) =
     [\<lparr>id' = ''A.jpg1730534400000'', imagePreview = ''blob:0'', status = ''Failed'',
       data = Some expenseA, saveStatus = failed,
       error = Some ''The caller does not have permission''\<rparr>,
      \<lparr>id' = ''A.jpg1730534400000'', imagePreview = ''blob:1'', status = ''Processing OCR...'',
       data = None, saveStatus = pending, error = None\<rparr>]"
proof -
  have a: "await_extractTextFromImage world_null_result 0 fileA = Inr ''CAFE LUNA 2x LATTE 12.50''"
    by (simp add: world_null_result_def)
  have b: "generateExpenseJson upstream_null ''CAFE LUNA 2x LATTE 12.50'' = Inr JNull"
    by (simp add: json_defs upstream_null_def)
  have c: "await_generateExpenseJson world_null_result 0 ''CAFE LUNA 2x LATTE 12.50'' = Inr None"
    by (simp add: world_null_result_def b resolved_data_def as_data_def)
  have d: "persist_calls (batch_events world_null_result [fileA] ''ya29.token'' ''sheet-1'' app0_json) =
     [(None, ''ya29.token'', ''sheet-1'')]"
    by (simp add: run_defs fixture_defs json_defs)
  have e: "processedReceipts (handleProcessReceipts world_null_result [fileA] ''ya29.token'' ''sheet-1'' app0_json) =
     [\<lparr>id' = ''A.jpg1730534400000'', imagePreview = ''blob:A.jpg'', status = ''Failed'',
       data = None, saveStatus = failed, error = Some ''expenseData is null''\<rparr>]"
    by (simp add: run_defs fixture_defs json_defs)
  have f: "await_extractTextFromImage world_same_tick_refused 1 fileA2 = Inr ''CAFE LUNA 2x LATTE 12.50''"
    "await_generateExpenseJson world_same_tick_refused 1 ''CAFE LUNA 2x LATTE 12.50'' = Inr (Some expenseA)"
    "await_saveToGoogleSheets world_same_tick_refused 1 (Some expenseA) ''ya29.token'' ''sheet-1'' =
       Inl (Thrown (Some ''The caller does not have permission''))"
    by (simp_all add: world_same_tick_refused_def)
  have g: "processedReceipts
       (handleProcessReceipts world_same_tick_refused [fileA, fileA2] ''ya29.token'' ''sheet-1'' app0) =
     [\<lparr>id' = ''A.jpg1730534400000'', imagePreview = ''blob:0'', status = ''Failed'',
       data = Some expenseA, saveStatus = failed,
       error = Some ''The caller does not have permission''\<rparr>,
      \<lparr>id' = ''A.jpg1730534400000'', imagePreview = ''blob:1'', status = ''Processing OCR...'',
       data = None, saveStatus = pending, error = None\<rparr>]"
    by (simp add: run_defs fixture_defs)
  from a b c d e f g show ?thesis by blast
qed

text \<open>
  C1, amended: for every job whose id is carried by no earlier record of the batch and
  whose extraction and structuring calls succeed, the structuring result (\<open>None\<close> when
  the call resolved to \<^verbatim>\<open>null\<close>) is in the \<^verbatim>\<open>data\<close> field of the job's own record in
  the last snapshot published before the job's first persistence call is issued; every
  snapshot published after that call, the final one included, still holds that value in
  the record's \<^verbatim>\<open>data\<close> field; and if the persistence call is rejected the job's own
  record ends with \<^verbatim>\<open>saveStatus\<close> failed, status \<^verbatim>\<open>Failed\<close> and the rejection's
  message as its error.
\<close>

theorem structured_result_kept_in_own_record:
  assumes "id' (initialResult E k file) \<notin> id' ` set results"
    and "await_extractTextFromImage E k file = Inr ocrText" "ocrText \<noteq> []"
    and "await_generateExpenseJson E k ocrText = Inr expenseData"
  shows "\<exists>before after.
           job_events E googleAccessToken spreadsheetId k file (results, a) =
             before @ CallPersist expenseData googleAccessToken spreadsheetId # after \<and>
           persist_calls before = [] \<and>
           snapshots before \<noteq> [] \<and>
           length (last (snapshots before)) = Suc (length results) \<and>
           data (last (snapshots before) ! length results) = expenseData \<and>
           snapshots after \<noteq> [] \<and>
           (\<forall>snap\<in>set (snapshots after).
              length snap = Suc (length results) \<and> data (snap ! length results) = expenseData) \<and>
           last (snapshots after) = fst (process_file E googleAccessToken spreadsheetId k file (results, a)) \<and>
           processedReceipts (snd (process_file E googleAccessToken spreadsheetId k file (results, a))) =
             fst (process_file E googleAccessToken spreadsheetId k file (results, a)) \<and>
           id' (fst (process_file E googleAccessToken spreadsheetId k file (results, a)) ! length results) =
             id' (initialResult E k file) \<and>
           (\<forall>e. await_saveToGoogleSheets E k expenseData googleAccessToken spreadsheetId = Inl e \<longrightarrow>
              saveStatus (fst (process_file E googleAccessToken spreadsheetId k file (results, a)) ! length results)
                = failed \<and>
              error (fst (process_file E googleAccessToken spreadsheetId k file (results, a)) ! length results)
                = Some (caught_message e) \<and>
              status (fst (process_file E googleAccessToken spreadsheetId k file (results, a)) ! length results)
                = ''Failed'')"
proof -
  let ?pf = "process_file E googleAccessToken spreadsheetId k file (results, a)"
  let ?jid = "id' (initialResult E k file)"
  let ?n = "length results"
  obtain before after where B:
    "job_events E googleAccessToken spreadsheetId k file (results, a) =
       before @ CallPersist expenseData googleAccessToken spreadsheetId # after"
    "persist_calls before = []" "snapshots before \<noteq> []"
    "has_data ?jid expenseData (last (snapshots before))"
    "snapshots after \<noteq> []"
    "\<forall>snap\<in>set (snapshots after). has_data ?jid expenseData snap"
    "last (snapshots after) = fst ?pf"
    "processedReceipts (snd ?pf) = fst ?pf"
    "\<forall>e. await_saveToGoogleSheets E k expenseData googleAccessToken spreadsheetId = Inl e \<longrightarrow>
       (\<exists>r. job_record ?jid (fst ?pf) = Some r \<and> data r = expenseData \<and> saveStatus r = failed \<and>
            error r = Some (caught_message e) \<and> status r = ''Failed'')"
    using structured_job_events [OF assms(2,3,4), of googleAccessToken spreadsheetId results a]
    by blast
  have sn: "snapshots (job_events E googleAccessToken spreadsheetId k file (results, a)) =
      snapshots before @ snapshots after"
    by (simp add: B(1))
  have own: "job_record ?jid snap = Some (snap ! ?n) \<and> length snap = Suc ?n \<and> id' (snap ! ?n) = ?jid"
    if "snap \<in> set (snapshots before) \<union> set (snapshots after)" for snap
  proof -
    from that have "snap \<in> set (snapshots (job_events E googleAccessToken spreadsheetId k file (results, a)))"
      by (simp add: sn)
    with assms(1) show ?thesis by (rule snapshot_own_record)
  qed
  have held: "length snap = Suc ?n \<and> data (snap ! ?n) = expenseData"
    if "snap \<in> set (snapshots before) \<union> set (snapshots after)" "has_data ?jid expenseData snap" for snap
    using own [OF that(1)] that(2) by (simp add: has_data_def)
  have lb: "last (snapshots before) \<in> set (snapshots before) \<union> set (snapshots after)"
    using B(3) by simp
  have la: "fst ?pf \<in> set (snapshots before) \<union> set (snapshots after)"
    using B(5,7) last_in_set [of "snapshots after"] by simp
  have c4: "length (last (snapshots before)) = Suc ?n \<and> data (last (snapshots before) ! ?n) = expenseData"
    using held [OF lb B(4)] .
  have c6: "\<forall>snap\<in>set (snapshots after). length snap = Suc ?n \<and> data (snap ! ?n) = expenseData"
    using held B(6) by simp
  have c9: "id' (fst ?pf ! ?n) = ?jid"
    using own [OF la] by simp
  have c10: "\<forall>e. await_saveToGoogleSheets E k expenseData googleAccessToken spreadsheetId = Inl e \<longrightarrow>
      saveStatus (fst ?pf ! ?n) = failed \<and> error (fst ?pf ! ?n) = Some (caught_message e) \<and>
      status (fst ?pf ! ?n) = ''Failed''"
    using B(9) own [OF la] by auto
  from B(1,2,3,5,7,8) c4 c6 c9 c10 show ?thesis by blast
qed

theorem structured_result_kept_in_own_record_witness:
  "id' (initialResult world_persist_fails 1 fileB) \<notin> id' ` set [receipt_a] \<and>
   await_extractTextFromImage world_persist_fails 1 fileB = Inr ''CAFE LUNA 2x LATTE 12.50'' \<and>
   ''CAFE LUNA 2x LATTE 12.50'' \<noteq> [] \<and>
   await_generateExpenseJson world_persist_fails 1 ''CAFE LUNA 2x LATTE 12.50'' = Inr (Some expenseA) \<and>
   await_saveToGoogleSheets world_persist_fails 1 (Some expenseA) ''ya29.token'' ''sheet-1''
     = Inl (Thrown (Some ''The caller does not have permission'')) \<and>
   fst (process_file world_persist_fails ''ya29.token'' ''sheet-1'' 1 fileB ([receipt_a], app0)) =
     [receipt_a,
      \<lparr>id' = ''B.jpg1730534400900'', imagePreview = ''blob:B.jpg'', status = ''Failed'',
       data = Some expenseA, saveStatus = failed,
       error = Some ''The caller does not have permission''\<rparr>] \<and>
   saveStatus (fst (process_file world_persist_fails ''ya29.token'' ''sheet-1'' 1 fileB ([receipt_a], app0))
                ! length [receipt_a]) = failed \<and>
   error (fst (process_file world_persist_fails ''ya29.token'' ''sheet-1'' 1 fileB ([receipt_a], app0))
                ! length [receipt_a]) =
     Some (caught_message (Thrown (Some ''The caller does not have permission'')))"
proof -
  have h0: "id' (initialResult world_persist_fails 1 fileB) \<notin> id' ` set [receipt_a]"
    by (simp add: initialResult_def show_nat.simps digit_char_def fixture_defs)
  have h1: "await_extractTextFromImage world_persist_fails 1 fileB = Inr ''CAFE LUNA 2x LATTE 12.50''"
    and h2: "''CAFE LUNA 2x LATTE 12.50'' \<noteq> []"
    and h3: "await_generateExpenseJson world_persist_fails 1 ''CAFE LUNA 2x LATTE 12.50'' = Inr (Some expenseA)"
    and h4: "await_saveToGoogleSheets world_persist_fails 1 (Some expenseA) ''ya29.token'' ''sheet-1''
      = Inl (Thrown (Some ''The caller does not have permission''))"
    by (simp_all add: world_persist_fails_def)
  have ev: "fst (process_file world_persist_fails ''ya29.token'' ''sheet-1'' 1 fileB ([receipt_a], app0)) =
     [receipt_a,
      \<lparr>id' = ''B.jpg1730534400900'', imagePreview = ''blob:B.jpg'', status = ''Failed'',
       data = Some expenseA, saveStatus = failed,
       error = Some ''The caller does not have permission''\<rparr>]"
    by (simp add: run_defs fixture_defs)
  have "saveStatus (fst (process_file world_persist_fails ''ya29.token'' ''sheet-1'' 1 fileB ([receipt_a], app0))
                ! length [receipt_a]) = failed \<and>
   error (fst (process_file world_persist_fails ''ya29.token'' ''sheet-1'' 1 fileB ([receipt_a], app0))
                ! length [receipt_a]) =
     Some (caught_message (Thrown (Some ''The caller does not have permission'')))"
    using structured_result_kept_in_own_record [OF h0 h1 h2 h3, of "''ya29.token''" "''sheet-1''" app0] h4
    by blast
  with h0 h1 h2 h3 h4 ev show ?thesis by blast
qed

text \<open>
  C2, as stated, fails in two ways. The guard is \<^verbatim>\<open>!ocrText\<close>, which only the empty
  string meets: a text of one space is handed to the structuring call and the job goes on
  to success. And when the job's id is already carried by an earlier record, the failure
  update goes to that record: the second job of the batch below gets the empty string
  from extraction, yet its own record ends as it was created, with status
  \<^verbatim>\<open>Processing OCR...\<close>, \<^verbatim>\<open>saveStatus\<close> pending and no error.
\<close>

theorem blank_text_is_structured_counterexample:
  "await_extractTextFromImage world_blank_text 0 fileA = Inr '' '' \<and>
   structure_calls (batch_events world_blank_text [fileA] ''ya29.token'' ''sheet-1'' app0) = ['' ''] \<and>
   processedReceipts (handleProcessReceipts world_blank_text [fileA] ''ya29.token'' ''sheet-1'' app0) =
     [\<lparr>id' = ''A.jpg1730534400000'', imagePreview = ''blob:A.jpg'', status = ''Saved successfully!'',
       data = Some expenseA, saveStatus = success, error = None\<rparr>] \<and>
   await_extractTextFromImage world_same_tick_empty 1 fileA2 = Inr [] \<and>
   processedReceipts
       (handleProcessReceipts world_same_tick_empty [fileA, fileA2] ''ya29.token'' ''sheet-1'' app0) =
     [\<lparr>id' = ''A.jpg1730534400000'', imagePreview = ''blob:0'', status = ''Failed'',
       data = None, saveStatus = failed,
       error = Some ''Could not extract any text. The image might be unclear.''\<rparr>,
      \<lparr>id' = ''A.jpg1730534400000'', imagePreview = ''blob:1'', status = ''Processing OCR...'',
       data = None, saveStatus = pending, error = None\<rparr>]"
  by (simp add: run_defs fixture_defs)

text \<open>
  C2, amended: for every job whose extraction call resolves to the empty string, no
  structuring call and no persistence call is made for the job, and the \<^verbatim>\<open>data\<close> field
  of the job's own record is null at the end of the job; when no earlier record of the
  batch carries the job's id, the job publishes two snapshots, the one with its record as
  created and the final one, in which that record differs from the created one in
  exactly status \<^verbatim>\<open>Failed\<close>, error
  \<^verbatim>\<open>Could not extract any text. The image might be unclear.\<close> and \<^verbatim>\<open>saveStatus\<close>
  failed, and every earlier record is unchanged.
\<close>

theorem empty_text_fails_without_structuring:
  assumes "await_extractTextFromImage E k file = Inr []"
  shows "structure_calls (job_events E googleAccessToken spreadsheetId k file (results, a)) = [] \<and>
         persist_calls (job_events E googleAccessToken spreadsheetId k file (results, a)) = [] \<and>
         processedReceipts (snd (process_file E googleAccessToken spreadsheetId k file (results, a))) =
           fst (process_file E googleAccessToken spreadsheetId k file (results, a)) \<and>
         length (fst (process_file E googleAccessToken spreadsheetId k file (results, a))) =
           Suc (length results) \<and>
         id' (fst (process_file E googleAccessToken spreadsheetId k file (results, a)) ! length results) =
           id' (initialResult E k file) \<and>
         data (fst (process_file E googleAccessToken spreadsheetId k file (results, a)) ! length results) =
           None \<and>
         (id' (initialResult E k file) \<notin> id' ` set results \<longrightarrow>
            fst (process_file E googleAccessToken spreadsheetId k file (results, a)) =
              results @ [(initialResult E k file)
                \<lparr>status := ''Failed'',
                 error := Some ''Could not extract any text. The image might be unclear.'',
                 saveStatus := failed\<rparr>] \<and>
            snapshots (job_events E googleAccessToken spreadsheetId k file (results, a)) =
              [results @ [initialResult E k file],
               results @ [(initialResult E k file)
                 \<lparr>status := ''Failed'',
                  error := Some ''Could not extract any text. The image might be unclear.'',
                  saveStatus := failed\<rparr>]])"
proof -
  let ?pf = "process_file E googleAccessToken spreadsheetId k file (results, a)"
  let ?jid = "id' (initialResult E k file)"
  let ?r0 = "initialResult E k file"
  let ?n = "length results"
  let ?u = "upd_failed (Thrown (Some ''Could not extract any text. The image might be unclear.''))
              :: 'a Partial_ProcessedReceipt"
  let ?rF = "?r0\<lparr>status := ''Failed'',
                 error := Some ''Could not extract any text. The image might be unclear.'',
                 saveStatus := failed\<rparr>"
  have steps: "job_steps E googleAccessToken spreadsheetId k file = [Upd ?u]"
    using assms by (simp add: job_steps_def)
  have run: "fst ?pf = results_after ?jid ?u (results @ [?r0])"
    by (simp add: process_file_steps steps job_start_pair updateResult_eq)
  have ev: "structure_calls (job_events E googleAccessToken spreadsheetId k file (results, a)) = []"
    "persist_calls (job_events E googleAccessToken spreadsheetId k file (results, a)) = []"
    "snapshots (job_events E googleAccessToken spreadsheetId k file (results, a)) =
       [results @ [?r0], fst ?pf]"
    "processedReceipts (snd ?pf) = fst ?pf"
    using empty_text_job_events [OF assms, of googleAccessToken spreadsheetId results a] by simp_all
  have pos: "length (fst ?pf) = Suc ?n" "id' (fst ?pf ! ?n) = ?jid"
    using own_record_position [of E googleAccessToken spreadsheetId k "file" results a] by simp_all
  have sp: "spread ?r0 ?u = ?rF"
    by (simp add: spread_def upd_failed_def caught_message_def initialResult_def no_update_def)
  have fresh: "fst ?pf = results @ [?rF]" if "?jid \<notin> id' ` set results"
    using results_after_fresh [OF that, of ?r0 ?u] by (simp add: run sp)
  have dat: "data (fst ?pf ! ?n) = None"
  proof (cases "?jid \<in> id' ` set results")
    case True
    then obtain rs' where "fst ?pf = rs' @ [?r0]" "length rs' = ?n"
      using process_file_collide [of E k "file" results googleAccessToken spreadsheetId a] by blast
    then have "fst ?pf ! ?n = ?r0" by (metis nth_append_length)
    then show ?thesis by (simp add: initialResult_def)
  next
    case False
    then have "fst ?pf ! ?n = ?rF" using fresh by simp
    then show ?thesis by (simp add: initialResult_def)
  qed
  show ?thesis
    using ev pos dat fresh by simp
qed

theorem empty_text_fails_without_structuring_witness:
  "await_extractTextFromImage world_empty_text 1 fileB = Inr [] \<and>
   id' (initialResult world_empty_text 1 fileB) \<notin> id' ` set [receipt_a] \<and>
   structure_calls (job_events world_empty_text ''ya29.token'' ''sheet-1'' 1 fileB ([receipt_a], app0)) = [] \<and>
   fst (process_file world_empty_text ''ya29.token'' ''sheet-1'' 1 fileB ([receipt_a], app0)) =
     [receipt_a] @ [(initialResult world_empty_text 1 fileB)
                \<lparr>status := ''Failed'',
                 error := Some ''Could not extract any text. The image might be unclear.'',
                 saveStatus := failed\<rparr>] \<and>
   fst (process_file world_empty_text ''ya29.token'' ''sheet-1'' 1 fileB ([receipt_a], app0)) =
     [receipt_a,
      \<lparr>id' = ''B.jpg1730534400900'', imagePreview = ''blob:B.jpg'', status = ''Failed'',
       data = None, saveStatus = failed,
       error = Some ''Could not extract any text. The image might be unclear.''\<rparr>]"
proof -
  have h: "await_extractTextFromImage world_empty_text 1 fileB = Inr []"
    by (simp add: world_empty_text_def)
  have h0: "id' (initialResult world_empty_text 1 fileB) \<notin> id' ` set [receipt_a]"
    by (simp add: initialResult_def show_nat.simps digit_char_def fixture_defs)
  have "structure_calls (job_events world_empty_text ''ya29.token'' ''sheet-1'' 1 fileB ([receipt_a], app0)) = [] \<and>
    fst (process_file world_empty_text ''ya29.token'' ''sheet-1'' 1 fileB ([receipt_a], app0)) =
     [receipt_a] @ [(initialResult world_empty_text 1 fileB)
                \<lparr>status := ''Failed'',
                 error := Some ''Could not extract any text. The image might be unclear.'',
                 saveStatus := failed\<rparr>]"
    using empty_text_fails_without_structuring [OF h, of "''ya29.token''" "''sheet-1''" "[receipt_a]" app0] h0
    by blast
  moreover have "fst (process_file world_empty_text ''ya29.token'' ''sheet-1'' 1 fileB ([receipt_a], app0)) =
     [receipt_a,
      \<lparr>id' = ''B.jpg1730534400900'', imagePreview = ''blob:B.jpg'', status = ''Failed'',
       data = None, saveStatus = failed,
       error = Some ''Could not extract any text. The image might be unclear.''\<rparr>]"
    by (simp add: run_defs fixture_defs)
  ultimately show ?thesis using h h0 by blast
qed

section \<open>Validation\<close>

text \<open>
  C8. With an empty image list, an empty access token or an empty spreadsheet id the
  handler only raises the alert carrying the validation message: that alert is the single
  event of the run (no snapshot, so no job record, and no collaborator call), and the
  observable collection and the processing flag are what they were.
\<close>

theorem validation_failure_changes_nothing:
  assumes "imageFiles = [] \<or> googleAccessToken = [] \<or> spreadsheetId = []"
  shows "batch_events E imageFiles googleAccessToken spreadsheetId a =
           [Alert ''Please upload images and connect to Google Sheets.''] \<and>
         processedReceipts (handleProcessReceipts E imageFiles googleAccessToken spreadsheetId a)
           = processedReceipts a \<and>
         isProcessing (handleProcessReceipts E imageFiles googleAccessToken spreadsheetId a)
           = isProcessing a"
  using assms by (auto simp: batch_events_def handleProcessReceipts_def)

theorem validation_failure_changes_nothing_witness:
  "batch_events world_AB [fileA, fileB] ''ya29.token'' [] (app0\<lparr>processedReceipts := [receipt_a]\<rparr>) =
           [Alert ''Please upload images and connect to Google Sheets.''] \<and>
   processedReceipts (handleProcessReceipts world_AB [fileA, fileB] ''ya29.token'' []
       (app0\<lparr>processedReceipts := [receipt_a]\<rparr>)) = [receipt_a]"
  using validation_failure_changes_nothing [of "[fileA, fileB]" "''ya29.token''" "[]" world_AB
      "app0\<lparr>processedReceipts := [receipt_a]\<rparr>"]
  by simp

section \<open>Colliding ids\<close>

text \<open>
  C6 at two files of one name whose records are created at one reading of the clock: both
  records receive the same id, although the record type documents the id as the unique
  identifier of the job. (That the collection has one record per file, in input order, is
  \<open>process_files_ids\<close>.)
\<close>

theorem same_name_same_tick_ids_collide:
  "map id' (processedReceipts
      (handleProcessReceipts world_same_tick [fileA, fileA2] ''ya29.token'' ''sheet-1'' app0))
     = [''A.jpg1730534400000'', ''A.jpg1730534400000''] \<and>
   \<not> distinct (map id' (processedReceipts
      (handleProcessReceipts world_same_tick [fileA, fileA2] ''ya29.token'' ''sheet-1'' app0)))"
  by (simp add: run_defs fixture_defs)

text \<open>
  C5 at the same input, where the first job fails and the second goes through: every
  update of the second job lands on the first record. The final collection holds a record
  with \<open>saveStatus = success\<close> and a non-null error, beside a record left pending, and
  across the snapshots the status of the first record goes from \<^verbatim>\<open>Failed\<close> back to
  \<^verbatim>\<open>Structuring data...\<close>.
\<close>

theorem collision_breaks_record_invariants:
  "processedReceipts (handleProcessReceipts world_same_tick [fileA, fileA2] ''ya29.token'' ''sheet-1'' app0)
     = [\<lparr>id' = ''A.jpg1730534400000'', imagePreview = ''blob:0'', status = ''Saved successfully!'',
          data = Some expenseA, saveStatus = success, error = Some ''Failed to fetch''\<rparr>,
        \<lparr>id' = ''A.jpg1730534400000'', imagePreview = ''blob:1'', status = ''Processing OCR...'',
          data = None, saveStatus = pending, error = None\<rparr>] \<and>
   map (map status) (snapshots (batch_events world_same_tick [fileA, fileA2] ''ya29.token'' ''sheet-1'' app0))
     = [[], [''Processing OCR...''], [''Failed''],
        [''Failed'', ''Processing OCR...''],
        [''Structuring data...'', ''Processing OCR...''],
        [''Data extracted'', ''Processing OCR...''],
        [''Saving to Google Sheets...'', ''Processing OCR...''],
        [''Saved successfully!'', ''Processing OCR...'']]"
  by (simp add: run_defs fixture_defs)


section \<open>The structuring stage\<close>

lemma process_file_reaches_saving:
  assumes "await_extractTextFromImage E k file = Inr t" "t \<noteq> []"
    and "await_generateExpenseJson E k t = Inr d"
  shows "\<exists>before after snap r.
     job_events E tok sid k file (rs, a) =
       before @ SetProcessedReceipts snap # CallPersist d tok sid # after \<and>
     job_record (id' (initialResult E k file)) snap = Some r \<and>
     status r = ''Saving to Google Sheets...'' \<and> data r = d"
proof -
  let ?jid = "id' (initialResult E k file)"
  let ?rs0 = "rs @ [initialResult E k file]"
  let ?u1 = "no_update\<lparr>status_upd := Some ''Structuring data...''\<rparr> :: 'a Partial_ProcessedReceipt"
  let ?u2 = "no_update\<lparr>status_upd := Some ''Data extracted'', data_upd := Some d\<rparr>"
  let ?u3 = "no_update\<lparr>status_upd := Some ''Saving to Google Sheets...''\<rparr> :: 'a Partial_ProcessedReceipt"
  let ?R1 = "results_after ?jid ?u1 ?rs0"
  let ?R2 = "results_after ?jid ?u2 ?R1"
  let ?R3 = "results_after ?jid ?u3 ?R2"
  let ?p = "await_saveToGoogleSheets E k d tok sid"
  obtain u4 :: "'a Partial_ProcessedReceipt" where u4: "steps_after_persist ?p = [Upd u4]" "id_upd u4 = None"
    using steps_after_persist_last by blast
  let ?R4 = "results_after ?jid u4 ?R3"
  have steps: "job_steps E tok sid k file =
      [Upd ?u1, Ev (CallStructure t), Upd ?u2, Upd ?u3, Ev (CallPersist d tok sid), Upd u4]"
    using assms u4(1) by (simp add: job_steps_def steps_after_structure_def)
  have p0: "?jid \<in> id' ` set ?rs0" by simp
  have p1: "?jid \<in> id' ` set ?R1" using p0 by simp
  have p2: "?jid \<in> id' ` set ?R2" using p1 by simp
  have p3: "?jid \<in> id' ` set ?R3" using p2 by simp
  have run: "process_file E tok sid k file (rs, a) =
      (?R4, setProcessedReceipts ?R4 (call (CallPersist d tok sid) (setProcessedReceipts ?R3
          (setProcessedReceipts ?R2 (call (CallStructure t) (setProcessedReceipts ?R1
             (call (CallExtract file) (setProcessedReceipts ?rs0 a))))))))"
    using p0 p1 p2 p3 u4(2)
    by (simp add: process_file_steps steps job_start_pair updateResult_eq)
  have ev: "job_events E tok sid k file (rs, a) =
      [SetProcessedReceipts ?rs0, CallExtract file, SetProcessedReceipts ?R1, CallStructure t,
       SetProcessedReceipts ?R2] @ SetProcessedReceipts ?R3 # CallPersist d tok sid # [SetProcessedReceipts ?R4]"
    by (simp add: job_events_def run)
  have "has_data ?jid d ?R2" using p1 by (intro has_data_written) simp_all
  then obtain r2 where r2: "job_record ?jid ?R2 = Some r2" "data r2 = d"
    by (auto simp: has_data_def split: option.splits)
  have "job_record ?jid ?R3 = map_option (\<lambda>r. spread r ?u3) (job_record ?jid ?R2)"
    by (rule job_record_results_after_same) simp
  with r2(1) have r3: "job_record ?jid ?R3 = Some (spread r2 ?u3)" by simp
  have "status (spread r2 ?u3) = ''Saving to Google Sheets...'' \<and> data (spread r2 ?u3) = d"
    using r2(2) by (simp add: spread_def)
  with ev r3 show ?thesis by blast
qed

text \<open>
  C9, as stated, fails at an upstream response that is valid JSON of another shape: the
  object \<^verbatim>\<open>{"items":[]}\<close> has no merchant, date or total, yet the service hands it
  back without an error, the orchestrator attaches it and issues the persistence call
  with it, and the job ends saved.
\<close>

theorem unvalidated_result_is_saved_counterexample:
  "\<not> spec_expense_shape (JObject [(ascii ''items'', JArray [])]) \<and>
   generateExpenseJson upstream_items_only ''CAFE LUNA 2x LATTE 12.50''
     = Inr (JObject [(ascii ''items'', JArray [])]) \<and>
   persist_calls (batch_events world_items_only [fileA] ''ya29.token'' ''sheet-1'' app0_json)
     = [(Some (JObject [(ascii ''items'', JArray [])]), ''ya29.token'', ''sheet-1'')] \<and>
   map status (processedReceipts
     (handleProcessReceipts world_items_only [fileA] ''ya29.token'' ''sheet-1'' app0_json))
     = [''Saved successfully!'']"
  by (simp add: run_defs fixture_defs json_defs)

text \<open>
  C9, amended. A rejection of the upstream call is passed on unchanged. Once the
  upstream call has resolved, the service fails, with its descriptive error, exactly when
  the response has no text or its trimmed text is not valid JSON; whatever value the
  text parses to is returned as it is, with no check against the expected shape. In the
  orchestrator every value the service resolves to is attached to the job and takes it
  to the Saving stage: the persistence call is issued with that value, right after a
  snapshot in which the job's record has status \<^verbatim>\<open>Saving to Google Sheets...\<close> and
  carries it (a returned \<^verbatim>\<open>null\<close> being held as the null data it is).
\<close>

theorem structuring_fails_iff_unparsable:
  fixes E :: "json env"
  shows
  "(generateContent (prompt ocr) = Inl e \<longrightarrow> generateExpenseJson generateContent ocr = Inl e) \<and>
   (generateContent (prompt ocr) = Inr response \<longrightarrow>
      (generateExpenseJson generateContent ocr = Inl structuring_failure \<longleftrightarrow>
         response_text response = None \<or>
         (\<exists>t. response_text response = Some t \<and> JSON_parse (trim t) = None)) \<and>
      (\<forall>t v. response_text response = Some t \<and> JSON_parse (trim t) = Some v \<longrightarrow>
         generateExpenseJson generateContent ocr = Inr v)) \<and>
   (await_extractTextFromImage E k file = Inr ocr \<and> ocr \<noteq> [] \<and>
    await_generateExpenseJson E k ocr = resolved_data (generateExpenseJson generateContent ocr) \<and>
    generateExpenseJson generateContent ocr = Inr v \<longrightarrow>
      (\<exists>before after snap r.
         job_events E googleAccessToken spreadsheetId k file (results, a) =
           before @ SetProcessedReceipts snap # CallPersist (as_data v) googleAccessToken spreadsheetId # after \<and>
         job_record (id' (initialResult E k file)) snap = Some r \<and>
         status r = ''Saving to Google Sheets...'' \<and> data r = as_data v))"
proof -
  have a: "generateContent (prompt ocr) = Inl e \<longrightarrow> generateExpenseJson generateContent ocr = Inl e"
    by (simp add: generateExpenseJson_def)
  have b: "generateContent (prompt ocr) = Inr response \<longrightarrow>
      (generateExpenseJson generateContent ocr = Inl structuring_failure \<longleftrightarrow>
         response_text response = None \<or>
         (\<exists>t. response_text response = Some t \<and> JSON_parse (trim t) = None)) \<and>
      (\<forall>t v. response_text response = Some t \<and> JSON_parse (trim t) = Some v \<longrightarrow>
         generateExpenseJson generateContent ocr = Inr v)"
    by (auto simp: generateExpenseJson_def split: option.splits)
  have c: "await_extractTextFromImage E k file = Inr ocr \<and> ocr \<noteq> [] \<and>
    await_generateExpenseJson E k ocr = resolved_data (generateExpenseJson generateContent ocr) \<and>
    generateExpenseJson generateContent ocr = Inr v \<longrightarrow>
      (\<exists>before after snap r.
         job_events E googleAccessToken spreadsheetId k file (results, a) =
           before @ SetProcessedReceipts snap # CallPersist (as_data v) googleAccessToken spreadsheetId # after \<and>
         job_record (id' (initialResult E k file)) snap = Some r \<and>
         status r = ''Saving to Google Sheets...'' \<and> data r = as_data v)"
  proof
    assume h: "await_extractTextFromImage E k file = Inr ocr \<and> ocr \<noteq> [] \<and>
      await_generateExpenseJson E k ocr = resolved_data (generateExpenseJson generateContent ocr) \<and>
      generateExpenseJson generateContent ocr = Inr v"
    then have "await_extractTextFromImage E k file = Inr ocr" "ocr \<noteq> []"
      "await_generateExpenseJson E k ocr = Inr (as_data v)"
      by (simp_all add: resolved_data_def)
    then show "\<exists>before after snap r.
         job_events E googleAccessToken spreadsheetId k file (results, a) =
           before @ SetProcessedReceipts snap # CallPersist (as_data v) googleAccessToken spreadsheetId # after \<and>
         job_record (id' (initialResult E k file)) snap = Some r \<and>
         status r = ''Saving to Google Sheets...'' \<and> data r = as_data v"
      by (rule process_file_reaches_saving)
  qed
  from a b c show ?thesis by blast
qed

theorem structuring_fails_iff_unparsable_witness:
  "generateExpenseJson upstream_prose ''CAFE LUNA 2x LATTE 12.50'' = Inl structuring_failure \<and>
   JSON_parse (trim (ascii ''Sorry, I cannot read this receipt.'')) = None \<and>
   generateExpenseJson upstream_receipt ''CAFE LUNA 2x LATTE 12.50'' =
     Inr (JObject
       [(ascii ''merchant'', JString (ascii ''Cafe Luna'')),
        (ascii ''date'', JString (ascii ''2026-01-05'')),
        (ascii ''total'', JNumber (ascii ''12.5'')),
        (ascii ''items'', JArray
           [JObject [(ascii ''item'', JString (ascii ''Latte'')),
                     (ascii ''quantity'', JNumber (ascii ''2'')),
                     (ascii ''price'', JNumber (ascii ''6.25''))]])]) \<and>
   spec_expense_shape (JObject
       [(ascii ''merchant'', JString (ascii ''Cafe Luna'')),
        (ascii ''date'', JString (ascii ''2026-01-05'')),
        (ascii ''total'', JNumber (ascii ''12.5'')),
        (ascii ''items'', JArray
           [JObject [(ascii ''item'', JString (ascii ''Latte'')),
                     (ascii ''quantity'', JNumber (ascii ''2'')),
                     (ascii ''price'', JNumber (ascii ''6.25''))]])])"
proof -
  let ?ocr = "''CAFE LUNA 2x LATTE 12.50''"
  let ?v = "JObject
       [(ascii ''merchant'', JString (ascii ''Cafe Luna'')),
        (ascii ''date'', JString (ascii ''2026-01-05'')),
        (ascii ''total'', JNumber (ascii ''12.5'')),
        (ascii ''items'', JArray
           [JObject [(ascii ''item'', JString (ascii ''Latte'')),
                     (ascii ''quantity'', JNumber (ascii ''2'')),
                     (ascii ''price'', JNumber (ascii ''6.25''))]])]"
  have p1: "upstream_prose (prompt ?ocr) =
      Inr \<lparr>response_text = Some (ascii ''Sorry, I cannot read this receipt.'')\<rparr>"
    by (simp add: upstream_prose_def)
  have p2: "JSON_parse (trim (ascii ''Sorry, I cannot read this receipt.'')) = None"
    by (simp add: json_defs)
  have r1: "upstream_receipt (prompt ?ocr) = Inr \<lparr>response_text = Some receipt_json\<rparr>"
    by (simp add: upstream_receipt_def)
  have r2: "JSON_parse (trim receipt_json) = Some ?v"
    by (simp add: json_defs receipt_json_def)
  have "generateExpenseJson upstream_prose ?ocr = Inl structuring_failure"
    using structuring_fails_iff_unparsable
      [where generateContent = upstream_prose and ocr = ?ocr
         and response = "\<lparr>response_text = Some (ascii ''Sorry, I cannot read this receipt.'')\<rparr>"]
      p1 p2 by simp
  moreover have "generateExpenseJson upstream_receipt ?ocr = Inr ?v"
    using structuring_fails_iff_unparsable
      [where generateContent = upstream_receipt and ocr = ?ocr
         and response = "\<lparr>response_text = Some receipt_json\<rparr>"]
      r1 r2 by simp
  moreover have "spec_expense_shape ?v"
    by (simp add: json_defs)
  ultimately show ?thesis using p2 by simp
qed


section \<open>Batches on the page\<close>

text \<open>
  Every update of a job names neither the id nor the image preview, so each part of a
  loop iteration between two \<^verbatim>\<open>await\<close>s keeps the frame of the batch.
\<close>

lemma same_frame_refl: "same_frame s s"
  by (simp add: same_frame_def)

lemma same_frame_trans: "same_frame s t \<Longrightarrow> same_frame t u \<Longrightarrow> same_frame s u"
  by (simp add: same_frame_def)

lemma same_frame_updateResult:
  assumes "id_upd u = None" "imagePreview_upd u = None"
  shows "same_frame s (updateResult jid u s)"
proof (cases s)
  case (Pair rs a)
  show ?thesis
  proof (cases "findIndex (\<lambda>r. id' r = jid) rs")
    case None
    then show ?thesis by (simp add: Pair updateResult_def same_frame_def)
  next
    case (Some i)
    then have i: "i < length rs" by (simp add: findIndex_Some_iff)
    have "map id' (rs[i := spread (rs ! i) u]) = map id' rs"
      "map imagePreview (rs[i := spread (rs ! i) u]) = map imagePreview rs"
      using assms i by (simp_all add: map_update spread_def list_update_same_conv)
    then show ?thesis
      using Some by (simp add: Pair updateResult_def same_frame_def Let_def setProcessedReceipts_def)
  qed
qed

lemma same_frame_call: "same_frame s (rs, a) \<Longrightarrow> same_frame s (rs, call e a)"
  by (simp add: same_frame_def call_def)

lemma same_frame_on_catch: "same_frame s (on_catch jid e s)"
  unfolding on_catch_def by (rule same_frame_updateResult) (simp_all add: no_update_def)

lemma same_frame_after_extract: "same_frame s (snd (after_extract jid r s))"
proof -
  have u: "same_frame s (updateResult jid (no_update\<lparr>status_upd := Some ''Structuring data...''\<rparr>) s)"
    by (rule same_frame_updateResult) (simp_all add: no_update_def)
  show ?thesis
    using u same_frame_on_catch [of s jid]
    by (auto simp: after_extract_def same_frame_call split: sum.splits prod.splits)
qed

lemma same_frame_after_structure: "same_frame s (snd (after_structure jid tok sid r s))"
proof (cases r)
  case (Inl e)
  then show ?thesis by (simp add: after_structure_def same_frame_on_catch)
next
  case (Inr d)
  let ?s1 = "updateResult jid (no_update\<lparr>status_upd := Some ''Data extracted'', data_upd := Some d\<rparr>) s"
  let ?s2 = "updateResult jid (no_update\<lparr>status_upd := Some ''Saving to Google Sheets...''\<rparr>) ?s1"
  have "same_frame s ?s1" by (rule same_frame_updateResult) (simp_all add: no_update_def)
  moreover have "same_frame ?s1 ?s2" by (rule same_frame_updateResult) (simp_all add: no_update_def)
  ultimately have "same_frame s ?s2" by (rule same_frame_trans)
  then show ?thesis
    using Inr by (auto simp: after_structure_def same_frame_call split: prod.splits)
qed

lemma same_frame_after_persist: "same_frame s (after_persist jid r s)"
proof (cases r)
  case (Inl e)
  then show ?thesis by (simp add: after_persist_def same_frame_on_catch)
next
  case (Inr d)
  then show ?thesis
    unfolding after_persist_def
    by (simp add: same_frame_updateResult no_update_def)
qed

text \<open>
  The page keeps to one suspended invocation at a time: \<open>page_ok\<close> holds of a page at
  rest and is kept by every happening.
\<close>

lemma page_ok_at_rest: "page_runs p = [] \<Longrightarrow> \<not> isProcessing (page_app p) \<Longrightarrow> page_ok p"
  by (simp add: page_ok_def)

lemma begin_job_ok:
  assumes "isProcessing a" "created_by r (run_index r) (run_results r)"
  shows "case begin_job r a of
           (None, a') \<Rightarrow> \<not> isProcessing a'
         | (Some r', a') \<Rightarrow> run_ok a' r'"
proof (cases "run_index r < length (run_files r)")
  case True
  then show ?thesis
    using assms
    by (simp add: begin_job_def job_start_def Let_def run_ok_def created_by_def
        call_def setProcessedReceipts_def initialResult_def)
next
  case False
  then show ?thesis by (simp add: begin_job_def setIsProcessing_def)
qed

lemma next_job_ok:
  assumes "run_ok a r" "same_frame (run_results r, a) s"
  shows "case next_job r s of
           (None, a') \<Rightarrow> \<not> isProcessing a'
         | (Some r', a') \<Rightarrow> run_ok a' r'"
proof -
  obtain rs a1 where s: "s = (rs, a1)" by (cases s)
  have "isProcessing a1" "created_by (r\<lparr>run_index := Suc (run_index r), run_results := rs\<rparr>)
      (Suc (run_index r)) rs"
    using assms by (simp_all add: s run_ok_def same_frame_def created_by_def)
  then show ?thesis
    using begin_job_ok [of a1 "r\<lparr>run_index := Suc (run_index r), run_results := rs\<rparr>"]
    by (simp add: next_job_def s)
qed

lemma keep_run_ok:
  assumes "run_ok a r" "same_frame (run_results r, a) (rs, a1)"
  shows "run_ok a1 (r\<lparr>run_results := rs, run_awaiting := w\<rparr>)"
  using assms by (simp add: run_ok_def same_frame_def created_by_def)

lemma resume_ok:
  assumes "run_ok a r"
  shows "case resume r a of
           (None, a') \<Rightarrow> \<not> isProcessing a'
         | (Some r', a') \<Rightarrow> run_ok a' r'"
proof -
  let ?E = "run_env r" and ?k = "run_index r"
  let ?f = "run_files r ! ?k"
  let ?jid = "id' (initialResult ?E ?k ?f)"
  let ?s = "(run_results r, a)"
  show ?thesis
  proof (cases "run_awaiting r")
    case AwaitExtract
    let ?x = "after_extract ?jid (await_extractTextFromImage ?E ?k ?f) ?s"
    obtain t rs a1 where x: "?x = (t, rs, a1)" by (metis prod_cases3)
    have "same_frame ?s (snd ?x)" by (rule same_frame_after_extract)
    then have sf: "same_frame ?s (rs, a1)" by (simp add: x)
    show ?thesis
    proof (cases t)
      case None
      then have "resume r a = next_job r (rs, a1)"
        using AwaitExtract x by (simp add: resume_def Let_def)
      then show ?thesis using next_job_ok [OF assms sf] by simp
    next
      case (Some ocrText)
      then have "resume r a = (Some (r\<lparr>run_results := rs, run_awaiting := AwaitStructure ocrText\<rparr>), a1)"
        using AwaitExtract x by (simp add: resume_def Let_def)
      then show ?thesis using keep_run_ok [OF assms sf] by simp
    qed
  next
    case (AwaitStructure ocrText)
    let ?x = "after_structure ?jid (run_token r) (run_sheet r) (await_generateExpenseJson ?E ?k ocrText) ?s"
    obtain t rs a1 where x: "?x = (t, rs, a1)" by (metis prod_cases3)
    have "same_frame ?s (snd ?x)" by (rule same_frame_after_structure)
    then have sf: "same_frame ?s (rs, a1)" by (simp add: x)
    show ?thesis
    proof (cases t)
      case None
      then have "resume r a = next_job r (rs, a1)"
        using AwaitStructure x by (simp add: resume_def Let_def)
      then show ?thesis using next_job_ok [OF assms sf] by simp
    next
      case (Some d)
      then have "resume r a = (Some (r\<lparr>run_results := rs, run_awaiting := AwaitPersist d\<rparr>), a1)"
        using AwaitStructure x by (simp add: resume_def Let_def)
      then show ?thesis using keep_run_ok [OF assms sf] by simp
    qed
  next
    case (AwaitPersist d)
    let ?x = "after_persist ?jid (await_saveToGoogleSheets ?E ?k d (run_token r) (run_sheet r)) ?s"
    have sf: "same_frame ?s ?x" by (rule same_frame_after_persist)
    have "resume r a = next_job r ?x"
      using AwaitPersist by (simp add: resume_def Let_def)
    then show ?thesis using next_job_ok [OF assms sf] by simp
  qed
qed

lemma enter_accepted:
  assumes "imageFiles \<noteq> []" "googleAccessToken \<noteq> []" "spreadsheetId \<noteq> []"
  shows "enter E imageFiles googleAccessToken spreadsheetId a =
     (Some \<lparr>run_env = E, run_files = imageFiles, run_token = googleAccessToken,
            run_sheet = spreadsheetId, run_index = 0,
            run_results = [initialResult E 0 (imageFiles ! 0)], run_awaiting = AwaitExtract\<rparr>,
      call (CallExtract (imageFiles ! 0))
        (setProcessedReceipts [initialResult E 0 (imageFiles ! 0)]
          (setProcessedReceipts [] (setIsProcessing True a))))"
  using assms by (simp add: enter_def batch_start_def begin_job_def job_start_def Let_def)

lemma happen_ok:
  assumes "page_ok p"
  shows "page_ok (happen p h)"
proof (cases h)
  case (Click E fs tok sid)
  show ?thesis
  proof (cases "button_disabled (page_app p) fs tok sid")
    case True
    then show ?thesis using assms Click by simp
  next
    case False
    then have g: "fs \<noteq> []" "tok \<noteq> []" "sid \<noteq> []" and np: "\<not> isProcessing (page_app p)"
      by (simp_all add: button_disabled_def)
    from np assms have runs: "page_runs p = []"
      by (auto simp: page_ok_def run_ok_def split: list.splits)
    show ?thesis
      using False Click runs g
      by (simp add: enter_accepted [OF g] page_ok_def run_ok_def created_by_def
          call_def setProcessedReceipts_def setIsProcessing_def)
  qed
next
  case (Settled i)
  show ?thesis
  proof (cases "i < length (page_runs p)")
    case False
    then show ?thesis using assms Settled by simp
  next
    case True
    with assms obtain r where runs: "page_runs p = [r]" and i: "i = 0"
      and ok: "run_ok (page_app p) r"
      by (auto simp: page_ok_def split: list.splits)
    show ?thesis
      using resume_ok [OF ok] Settled runs i
      by (auto simp: page_ok_def split: option.splits prod.splits)
  qed
qed

lemma happenings_ok:
  assumes "page_ok p"
  shows "page_ok (happenings p hs)"
  using assms unfolding happenings_def
  by (induction hs arbitrary: p) (simp_all add: happen_ok)


lemmas page_defs = happenings_def enter_def resume_def begin_job_def next_job_def
  button_disabled_def suspended_def

lemma happenings_Nil [simp]: "happenings p [] = p"
  by (simp add: happenings_def)

lemma happenings_Cons [simp]: "happenings p (h # hs) = happenings (happen p h) hs"
  by (simp add: happenings_def)

lemma happenings_append: "happenings p (xs @ ys) = happenings (happenings p xs) ys"
  by (simp add: happenings_def)

text \<open>
  Run without interruption, the page does what \<^verbatim>\<open>handleProcessReceipts\<close> does as a
  whole: an accepted click followed by the settling of each awaited call in turn ends in
  the application state the handler computes, with nothing suspended.
\<close>

lemma suspended_simps [simp]: "suspended None = []" "suspended (Some r) = [r]"
  by (simp_all add: suspended_def)

lemma settle_one:
  "happen \<lparr>page_app = a, page_runs = [r]\<rparr> (Settled 0) =
     \<lparr>page_app = snd (resume r a), page_runs = suspended (fst (resume r a))\<rparr>"
  by (cases "resume r a") (auto split: option.splits)

lemma next_job_same:
  "next_job (r\<lparr>run_results := rs, run_awaiting := w\<rparr>) s = next_job r s"
  by (cases s) (simp add: next_job_def begin_job_def)

lemma job_settles:
  fixes R :: "'d run"
  assumes "run_awaiting R = AwaitExtract"
    and "job_start (run_env R) (run_index R) (run_files R ! run_index R) (rs, a) = (run_results R, a1)"
  shows "\<exists>m. happenings \<lparr>page_app = a1, page_runs = [R]\<rparr> (replicate m (Settled 0)) =
      \<lparr>page_app = snd (next_job R (process_file (run_env R) (run_token R) (run_sheet R) (run_index R)
                                    (run_files R ! run_index R) (rs, a))),
       page_runs = suspended (fst (next_job R (process_file (run_env R) (run_token R) (run_sheet R)
                                    (run_index R) (run_files R ! run_index R) (rs, a))))\<rparr>"
proof -
  let ?E = "run_env R" and ?k = "run_index R" and ?tok = "run_token R" and ?sid = "run_sheet R"
  let ?f = "run_files R ! ?k"
  let ?jid = "id' (initialResult ?E ?k ?f)"
  let ?pf = "process_file ?E ?tok ?sid ?k ?f (rs, a)"
  obtain t rs2 a2 where x1: "after_extract ?jid (await_extractTextFromImage ?E ?k ?f) (run_results R, a1)
      = (t, rs2, a2)" by (metis prod_cases3)
  show ?thesis
  proof (cases t)
    case None
    have pf: "?pf = (rs2, a2)"
      using x1 None assms(2) by (simp add: process_file_def Let_def)
    have "resume R a1 = next_job R (rs2, a2)"
      using x1 None assms(1) by (simp add: resume_def Let_def)
    then have "happenings \<lparr>page_app = a1, page_runs = [R]\<rparr> (replicate 1 (Settled 0)) =
        \<lparr>page_app = snd (next_job R ?pf), page_runs = suspended (fst (next_job R ?pf))\<rparr>"
      by (simp add: settle_one pf del: happen.simps)
    then show ?thesis by blast
  next
    case (Some ocrText)
    let ?R2 = "R\<lparr>run_results := rs2, run_awaiting := AwaitStructure ocrText\<rparr>"
    have r1: "resume R a1 = (Some ?R2, a2)"
      using x1 Some assms(1) by (simp add: resume_def Let_def)
    obtain d rs3 a3 where x2: "after_structure ?jid ?tok ?sid (await_generateExpenseJson ?E ?k ocrText)
        (rs2, a2) = (d, rs3, a3)" by (metis prod_cases3)
    show ?thesis
    proof (cases d)
      case None
      have pf: "?pf = (rs3, a3)"
        using x1 Some x2 None assms(2) by (simp add: process_file_def Let_def)
      have "resume ?R2 a2 = next_job R (rs3, a3)"
        using x2 None by (simp add: resume_def Let_def next_job_same)
      then have "happenings \<lparr>page_app = a1, page_runs = [R]\<rparr> (replicate 2 (Settled 0)) =
          \<lparr>page_app = snd (next_job R ?pf), page_runs = suspended (fst (next_job R ?pf))\<rparr>"
        by (simp add: numeral_2_eq_2 settle_one r1 pf del: happen.simps)
      then show ?thesis by blast
    next
      case (Some expenseData)
      let ?R3 = "?R2\<lparr>run_results := rs3, run_awaiting := AwaitPersist expenseData\<rparr>"
      let ?s4 = "after_persist ?jid (await_saveToGoogleSheets ?E ?k expenseData ?tok ?sid) (rs3, a3)"
      have r2: "resume ?R2 a2 = (Some ?R3, a3)"
        using x2 Some by (simp add: resume_def Let_def)
      have pf: "?pf = ?s4"
        using x1 \<open>t = Some ocrText\<close> x2 Some assms(2) by (simp add: process_file_def Let_def)
      have "next_job ?R3 ?s4 = next_job R ?s4"
        by (simp only: next_job_same)
      then have "resume ?R3 a3 = next_job R ?s4"
        by (simp add: resume_def Let_def)
      then have "happenings \<lparr>page_app = a1, page_runs = [R]\<rparr> (replicate 3 (Settled 0)) =
          \<lparr>page_app = snd (next_job R ?pf), page_runs = suspended (fst (next_job R ?pf))\<rparr>"
        by (simp add: numeral_3_eq_3 settle_one r1 r2 pf del: happen.simps)
      then show ?thesis by blast
    qed
  qed
qed

lemma run_settles:
  fixes r :: "'d run"
  assumes "run_index r \<le> length (run_files r)"
  shows "\<exists>n. happenings \<lparr>page_app = snd (begin_job r a), page_runs = suspended (fst (begin_job r a))\<rparr>
               (replicate n (Settled 0)) =
      \<lparr>page_app = setIsProcessing False
          (snd (process_files (run_env r) (run_token r) (run_sheet r) (run_index r)
                  (drop (run_index r) (run_files r)) (run_results r, a))),
       page_runs = []\<rparr>"
  using assms
proof (induction "length (run_files r) - run_index r" arbitrary: r a)
  case 0
  then have "begin_job r a = (None, setIsProcessing False a)" "drop (run_index r) (run_files r) = []"
    by (simp_all add: begin_job_def)
  then have "happenings \<lparr>page_app = snd (begin_job r a), page_runs = suspended (fst (begin_job r a))\<rparr>
               (replicate 0 (Settled 0)) =
      \<lparr>page_app = setIsProcessing False
          (snd (process_files (run_env r) (run_token r) (run_sheet r) (run_index r)
                  (drop (run_index r) (run_files r)) (run_results r, a))),
       page_runs = []\<rparr>"
    by simp
  then show ?case by blast
next
  case (Suc n)
  let ?E = "run_env r" and ?k = "run_index r" and ?tok = "run_token r" and ?sid = "run_sheet r"
  let ?f = "run_files r ! ?k"
  from Suc.hyps(2) have k: "?k < length (run_files r)" by simp
  obtain rs1 a1 where js: "job_start ?E ?k ?f (run_results r, a) = (rs1, a1)"
    by (cases "job_start ?E ?k ?f (run_results r, a)")
  let ?R = "r\<lparr>run_results := rs1, run_awaiting := AwaitExtract\<rparr>"
  have bj: "begin_job r a = (Some ?R, a1)"
    using k js by (simp add: begin_job_def)
  let ?pf = "process_file ?E ?tok ?sid ?k ?f (run_results r, a)"
  let ?r' = "r\<lparr>run_index := Suc ?k, run_results := fst ?pf\<rparr>"
  have nj: "next_job ?R ?pf = begin_job ?r' (snd ?pf)"
    by (cases ?pf) (simp add: next_job_def begin_job_def)
  obtain m where m: "happenings \<lparr>page_app = a1, page_runs = [?R]\<rparr> (replicate m (Settled 0)) =
      \<lparr>page_app = snd (next_job ?R ?pf), page_runs = suspended (fst (next_job ?R ?pf))\<rparr>"
    using job_settles [of ?R "run_results r" a a1] js by auto
  have "n = length (run_files ?r') - run_index ?r'" "run_index ?r' \<le> length (run_files ?r')"
    using Suc.hyps(2) k by simp_all
  from Suc.hyps(1) [OF this, of "snd ?pf"]
  obtain n' where n': "happenings \<lparr>page_app = snd (begin_job ?r' (snd ?pf)),
        page_runs = suspended (fst (begin_job ?r' (snd ?pf)))\<rparr> (replicate n' (Settled 0)) =
      \<lparr>page_app = setIsProcessing False
          (snd (process_files ?E ?tok ?sid (Suc ?k) (drop (Suc ?k) (run_files r)) (fst ?pf, snd ?pf))),
       page_runs = []\<rparr>"
    by auto
  have dr: "drop ?k (run_files r) = ?f # drop (Suc ?k) (run_files r)"
    using k by (simp add: Cons_nth_drop_Suc)
  have "happenings \<lparr>page_app = snd (begin_job r a), page_runs = suspended (fst (begin_job r a))\<rparr>
               (replicate (m + n') (Settled 0)) =
      \<lparr>page_app = setIsProcessing False
          (snd (process_files ?E ?tok ?sid ?k (drop ?k (run_files r)) (run_results r, a))),
       page_runs = []\<rparr>"
    by (simp add: replicate_add happenings_append bj m nj n' dr del: happen.simps)
  then show ?case by blast
qed

lemma click_and_settle_is_handleProcessReceipts:
  assumes "\<not> button_disabled a imageFiles googleAccessToken spreadsheetId"
  shows "\<exists>n. happenings \<lparr>page_app = a, page_runs = []\<rparr>
               (Click E imageFiles googleAccessToken spreadsheetId # replicate n (Settled 0)) =
      \<lparr>page_app = handleProcessReceipts E imageFiles googleAccessToken spreadsheetId a,
       page_runs = []\<rparr>"
proof -
  let ?a = "setProcessedReceipts [] (setIsProcessing True a)"
  let ?r = "\<lparr>run_env = E, run_files = imageFiles, run_token = googleAccessToken,
             run_sheet = spreadsheetId, run_index = 0, run_results = [],
             run_awaiting = AwaitExtract\<rparr>"
  from assms have g: "imageFiles \<noteq> []" "googleAccessToken \<noteq> []" "spreadsheetId \<noteq> []"
    by (simp_all add: button_disabled_def)
  have en: "enter E imageFiles googleAccessToken spreadsheetId a = begin_job ?r ?a"
    using g by (simp add: enter_def batch_start_def)
  have "run_index ?r \<le> length (run_files ?r)" by simp
  from run_settles [OF this, of ?a]
  obtain n where n: "happenings \<lparr>page_app = snd (begin_job ?r ?a),
        page_runs = suspended (fst (begin_job ?r ?a))\<rparr> (replicate n (Settled 0)) =
      \<lparr>page_app = setIsProcessing False
          (snd (process_files E googleAccessToken spreadsheetId 0 imageFiles ([], ?a))),
       page_runs = []\<rparr>"
    by auto
  have "happen \<lparr>page_app = a, page_runs = []\<rparr> (Click E imageFiles googleAccessToken spreadsheetId) =
      \<lparr>page_app = snd (begin_job ?r ?a), page_runs = suspended (fst (begin_job ?r ?a))\<rparr>"
    using assms by (cases "begin_job ?r ?a") (auto simp: en split: option.splits)
  then have "happenings \<lparr>page_app = a, page_runs = []\<rparr>
               (Click E imageFiles googleAccessToken spreadsheetId # replicate n (Settled 0)) =
      \<lparr>page_app = handleProcessReceipts E imageFiles googleAccessToken spreadsheetId a,
       page_runs = []\<rparr>"
    using g by (simp add: n handleProcessReceipts_def batch_start_def)
  then show ?thesis by blast
qed


text \<open>
  C4. A batch is started by a click on the button, and the button is disabled while
  \<^verbatim>\<open>isProcessing\<close>. From a page at rest, after any sequence of clicks and settling
  calls: at most one invocation of the handler is suspended, and one is suspended exactly
  while the processing flag is raised; the array of the suspended invocation is the
  observable collection, so an update, which is looked up in that array, is looked up in
  the store that is current when it arrives; the records of that array are the ones this
  invocation created, one for each of its files up to the one in progress; and a click
  is accepted only when no invocation is suspended, so no call of an earlier batch is
  pending when a batch starts, and the first state changes of the new batch are the
  raising of the flag and the replacement of the observable collection by an empty one,
  before the first record of the new batch is published and the first collaborator call
  is issued.
\<close>

theorem batches_never_overlap:
  assumes "page_runs p0 = []" "\<not> isProcessing (page_app p0)"
  shows "length (page_runs (happenings p0 hs)) \<le> 1 \<and>
         (isProcessing (page_app (happenings p0 hs)) \<longleftrightarrow> page_runs (happenings p0 hs) \<noteq> []) \<and>
         (\<forall>r\<in>set (page_runs (happenings p0 hs)).
            run_results r = processedReceipts (page_app (happenings p0 hs)) \<and>
            run_index r < length (run_files r) \<and>
            map id' (run_results r) =
              map (\<lambda>k. id' (initialResult (run_env r) k (run_files r ! k))) [0..<Suc (run_index r)] \<and>
            map imagePreview (run_results r) =
              map (\<lambda>k. imagePreview (initialResult (run_env r) k (run_files r ! k)))
                [0..<Suc (run_index r)]) \<and>
         (\<forall>E imageFiles googleAccessToken spreadsheetId.
            \<not> button_disabled (page_app (happenings p0 hs)) imageFiles googleAccessToken spreadsheetId \<longrightarrow>
              page_runs (happenings p0 hs) = [] \<and>
              page_runs (happen (happenings p0 hs) (Click E imageFiles googleAccessToken spreadsheetId)) =
                [\<lparr>run_env = E, run_files = imageFiles, run_token = googleAccessToken,
                  run_sheet = spreadsheetId, run_index = 0,
                  run_results = [initialResult E 0 (imageFiles ! 0)],
                  run_awaiting = AwaitExtract\<rparr>] \<and>
              trace (page_app (happen (happenings p0 hs)
                                (Click E imageFiles googleAccessToken spreadsheetId))) =
                trace (page_app (happenings p0 hs)) @
                  [SetIsProcessing True, SetProcessedReceipts [],
                   SetProcessedReceipts [initialResult E 0 (imageFiles ! 0)],
                   CallExtract (imageFiles ! 0)] \<and>
              processedReceipts (page_app (happen (happenings p0 hs)
                                (Click E imageFiles googleAccessToken spreadsheetId))) =
                [initialResult E 0 (imageFiles ! 0)])"
proof -
  let ?p = "happenings p0 hs"
  have "page_ok p0" using assms by (simp add: page_ok_def)
  then have ok: "page_ok ?p" by (rule happenings_ok)
  have c1: "length (page_runs ?p) \<le> 1"
    using ok by (auto simp: page_ok_def split: list.splits)
  have c2: "isProcessing (page_app ?p) \<longleftrightarrow> page_runs ?p \<noteq> []"
    using ok by (auto simp: page_ok_def run_ok_def split: list.splits)
  have c3: "\<forall>r\<in>set (page_runs ?p).
            run_results r = processedReceipts (page_app ?p) \<and>
            run_index r < length (run_files r) \<and>
            map id' (run_results r) =
              map (\<lambda>k. id' (initialResult (run_env r) k (run_files r ! k))) [0..<Suc (run_index r)] \<and>
            map imagePreview (run_results r) =
              map (\<lambda>k. imagePreview (initialResult (run_env r) k (run_files r ! k)))
                [0..<Suc (run_index r)]"
    using ok by (auto simp: page_ok_def run_ok_def created_by_def split: list.splits)
  have c4: "page_runs ?p = [] \<and>
              page_runs (happen ?p (Click E fs tok sid)) =
                [\<lparr>run_env = E, run_files = fs, run_token = tok,
                  run_sheet = sid, run_index = 0,
                  run_results = [initialResult E 0 (fs ! 0)],
                  run_awaiting = AwaitExtract\<rparr>] \<and>
              trace (page_app (happen ?p (Click E fs tok sid))) =
                trace (page_app ?p) @
                  [SetIsProcessing True, SetProcessedReceipts [],
                   SetProcessedReceipts [initialResult E 0 (fs ! 0)],
                   CallExtract (fs ! 0)] \<and>
              processedReceipts (page_app (happen ?p (Click E fs tok sid))) =
                [initialResult E 0 (fs ! 0)]"
    if en: "\<not> button_disabled (page_app ?p) fs tok sid" for E fs tok sid
  proof -
    from en have g: "fs \<noteq> []" "tok \<noteq> []" "sid \<noteq> []" and np: "\<not> isProcessing (page_app ?p)"
      by (simp_all add: button_disabled_def)
    from np c2 have runs: "page_runs ?p = []" by simp
    show ?thesis
      using en runs
      by (simp add: enter_accepted [OF g] call_def setProcessedReceipts_def setIsProcessing_def)
  qed
  from c1 c2 c3 c4 show ?thesis by blast
qed


theorem batches_never_overlap_witness:
  "page_runs page_idle = [] \<and> \<not> isProcessing (page_app page_idle) \<and>
   map status (processedReceipts (page_app (happenings page_idle clicks_while_busy))) =
     [''Structuring data...''] \<and>
   map run_awaiting (page_runs (happenings page_idle clicks_while_busy)) =
     [AwaitStructure ''CAFE LUNA 2x LATTE 12.50''] \<and>
   isProcessing (page_app (happenings page_idle clicks_while_busy)) \<and>
   run_results (hd (page_runs (happenings page_idle clicks_while_busy))) =
     processedReceipts (page_app (happenings page_idle clicks_while_busy)) \<and>
   \<not> button_disabled (page_app (happenings page_idle [])) [fileA, fileB] ''ya29.token'' ''sheet-1'' \<and>
   processedReceipts (page_app (happen (happenings page_idle [])
       (Click world_AB [fileA, fileB] ''ya29.token'' ''sheet-1''))) =
     [initialResult world_AB 0 ([fileA, fileB] ! 0)]"
proof -
  have h: "page_runs page_idle = []" "\<not> isProcessing (page_app page_idle)"
    by (simp_all add: page_idle_def)
  have e1: "map status (processedReceipts (page_app (happenings page_idle clicks_while_busy))) =
     [''Structuring data...'']"
    by (simp add: page_defs run_defs fixture_defs)
  have e2: "map run_awaiting (page_runs (happenings page_idle clicks_while_busy)) =
     [AwaitStructure ''CAFE LUNA 2x LATTE 12.50'']"
    by (simp add: page_defs run_defs fixture_defs)
  from e2 have ne: "page_runs (happenings page_idle clicks_while_busy) \<noteq> []"
    by auto
  then have mem: "hd (page_runs (happenings page_idle clicks_while_busy))
      \<in> set (page_runs (happenings page_idle clicks_while_busy))"
    by simp
  have t0: "isProcessing (page_app (happenings page_idle clicks_while_busy))"
    using batches_never_overlap [OF h, of clicks_while_busy] ne by blast
  have t1: "run_results (hd (page_runs (happenings page_idle clicks_while_busy))) =
      processedReceipts (page_app (happenings page_idle clicks_while_busy))"
    using batches_never_overlap [OF h, of clicks_while_busy] mem by blast
  have en: "\<not> button_disabled (page_app (happenings page_idle [])) [fileA, fileB] ''ya29.token'' ''sheet-1''"
    by (simp add: button_disabled_def page_idle_def)
  have t2: "processedReceipts (page_app (happen (happenings page_idle [])
       (Click world_AB [fileA, fileB] ''ya29.token'' ''sheet-1''))) =
     [initialResult world_AB 0 ([fileA, fileB] ! 0)]"
    using batches_never_overlap [OF h, of "[]"] en by blast
  from h e1 e2 t0 t1 en t2 show ?thesis by blast
qed

end
